theory Spec2Isabelle
  imports Complex_Main "HOL-Library.Word" "HOL-Library.Log_Nat"
begin

unbundle bit_operations_syntax

section \<open>Data model of package merkle\<close>

text \<open>
  A Go \<open>[]byte\<close> is a byte list; where the source tests a slice against \<open>nil\<close> the
  model keeps the difference (\<open>None\<close> is the nil slice, \<open>Some []\<close> an empty one).
  A non-nil \<open>*Node\<close> is an address into an explicit store: the nodes of a tree point
  at each other (\<open>parent\<close>, \<open>left\<close>, \<open>right\<close>) and \<open>hashing\<close> writes digests
  through these pointers.  A nil pointer is \<open>None\<close>.
\<close>

type_synonym byte = "8 word"
type_synonym bytes = "byte list"
type_synonym slice = "bytes option"
type_synonym ref = nat

text \<open>
  The digest engine (\<open>hash.Hash\<close>) is a parameter: \<open>H bs\<close> is the digest obtained by
  \<open>Reset()\<close>, \<open>Write(bs)\<close>, \<open>Sum(nil)\<close>.  The engines modelled have a positive
  digest size, so that \<open>Sum(nil)\<close> returns a freshly allocated, non-nil slice.
\<close>

type_synonym engine = "bytes \<Rightarrow> bytes"

definition hash_sum :: "engine \<Rightarrow> bytes \<Rightarrow> slice" where
  "hash_sum H bs = Some (H bs)"

text \<open>The contents of a slice; \<open>append\<close> and \<open>bytes.Equal\<close> read a nil slice as empty.\<close>

fun bytes_of :: "slice \<Rightarrow> bytes" where
  "bytes_of None = []"
| "bytes_of (Some bs) = bs"

definition bytes_Equal :: "slice \<Rightarrow> slice \<Rightarrow> bool" where
  "bytes_Equal a b = (bytes_of a = bytes_of b)"

text \<open>
  Errors returned through the \<open>error\<close> result, in the order of their messages in the
  source (``Tree is not empty'', ``No vals'', ``Height out of range'', ``Val not found'',
  ``Leaf node does not have value''), and the two run-time panics the code can raise
  (index out of range, nil pointer dereference).
\<close>

datatype error =
    TreeNotEmpty
  | NoVals
  | HeightOutOfRange
  | ValNotFound
  | LeafWithoutValue
  | IndexOutOfRange
  | NilDereference

record Node =
  node_h :: slice
  node_parent :: "ref option"
  node_left :: "ref option"
  node_right :: "ref option"

text \<open>\<open>&Node{}\<close>: every field nil.\<close>

definition empty_Node :: Node where
  "empty_Node = \<lparr>node_h = None, node_parent = None, node_left = None, node_right = None\<rparr>"

definition IsLeaf :: "Node \<Rightarrow> bool" where
  "IsLeaf nd = (node_right nd = None \<and> node_left nd = None)"

text \<open>
  A \<open>Level\<close> is a slice of node pointers.  Every slot of a level made by \<open>make\<close> is
  written before it is read, so a level is the list of the (non-nil) pointers written.
\<close>

type_synonym Level = "ref list"

text \<open>
  The tree together with the memory its nodes live in: \<open>heap\<close> maps an address to the
  node stored there and \<open>fresh\<close> is the next address \<open>&Node{...}\<close> returns.
\<close>

record Tree =
  levels :: "Level list"
  heap :: "ref \<Rightarrow> Node"
  fresh :: ref

definition NewTree :: Tree where
  "NewTree = \<lparr>levels = [], heap = (\<lambda>_. empty_Node), fresh = 0\<rparr>"

text \<open>\<open>&Node{...}\<close>: store the node at the next free address and return that address.\<close>

definition alloc :: "Node \<Rightarrow> Tree \<Rightarrow> ref \<times> Tree" where
  "alloc nd t = (fresh t, t\<lparr>heap := (heap t)(fresh t := nd), fresh := Suc (fresh t)\<rparr>)"

text \<open>Indexing a slice panics outside \<open>0 \<le> i < len\<close>.\<close>

definition index :: "'a list \<Rightarrow> int \<Rightarrow> error + 'a" where
  "index xs i = (if 0 \<le> i \<and> i < int (length xs) then Inr (xs ! nat i) else Inl IndexOutOfRange)"

definition Height :: "Tree \<Rightarrow> int" where
  "Height t = int (length (levels t))"

definition Empty :: "Tree \<Rightarrow> bool" where
  "Empty t = (Height t = 0)"

text \<open>\<open>t.levels[0][0]\<close>\<close>

definition root :: "Tree \<Rightarrow> error + ref" where
  "root t = (case index (levels t) 0 of Inl e \<Rightarrow> Inl e | Inr l \<Rightarrow> index l 0)"

definition level :: "Tree \<Rightarrow> int \<Rightarrow> error + Level" where
  "level t height =
     (let height = height - 1 in
      if height < 0 \<or> height > Height t then Inl HeightOutOfRange
      else index (levels t) height)"

section \<open>Height of the tree\<close>

text \<open>
  \<open>count\<close> is \<open>len(vals)\<close>, so these functions are modelled on natural numbers;
  \<open>j >>= 1\<close> is \<open>drop_bit 1\<close>.
\<close>

definition PowOf2 :: "nat \<Rightarrow> bool" where
  "PowOf2 i = (i \<noteq> 0 \<and> i AND (i - 1) = 0)"

function Log2_loop :: "nat \<Rightarrow> nat \<Rightarrow> nat" where
  "Log2_loop j l = (let j = drop_bit 1 j in if j = 0 then l else Log2_loop j (l + 1))"
  by pat_completeness auto
termination
  by (relation "measure (\<lambda>(j, l). j)") (auto simp: drop_bit_eq_div)

declare Log2_loop.simps [simp del]

definition Log2 :: "nat \<Rightarrow> nat" where
  "Log2 i = (let l = Log2_loop i 0 in if PowOf2 i then l else l + 1)"

definition calcTreeHeight :: "nat \<Rightarrow> nat" where
  "calcTreeHeight count = (if count = 0 then 0 else if count = 1 then 2 else Log2 count + 1)"

section \<open>Construction\<close>

text \<open>
  One iteration of the loop of \<open>constructLevel\<close> allocates the parent \<open>nd\<close> of
  \<open>children[2*i]\<close> and \<open>children[2*i+1]\<close> (when the latter exists), and sets the
  children's \<open>parent\<close> pointers.
\<close>

definition set_parent :: "ref \<Rightarrow> ref \<Rightarrow> Tree \<Rightarrow> Tree" where
  "set_parent c p t = t\<lparr>heap := (heap t)(c := (heap t c)\<lparr>node_parent := Some p\<rparr>)\<rparr>"

definition set_left :: "ref \<Rightarrow> ref \<Rightarrow> Tree \<Rightarrow> Tree" where
  "set_left p c t = t\<lparr>heap := (heap t)(p := (heap t p)\<lparr>node_left := Some c\<rparr>)\<rparr>"

definition set_right :: "ref \<Rightarrow> ref \<Rightarrow> Tree \<Rightarrow> Tree" where
  "set_right p c t = t\<lparr>heap := (heap t)(p := (heap t p)\<lparr>node_right := Some c\<rparr>)\<rparr>"

function constructLevel_loop ::
  "Level \<Rightarrow> nat \<Rightarrow> nat \<Rightarrow> Level \<Rightarrow> Tree \<Rightarrow> error + (Level \<times> Tree)" where
  "constructLevel_loop children sz i parents t =
     (if i < sz then
        (let (nd, t) = alloc empty_Node t;
             il = 2 * i; ir = 2 * i + 1
         in case index children (int il) of
              Inl e \<Rightarrow> Inl e
            | Inr nl \<Rightarrow>
               (let t = set_left nd nl t;
                    t = set_parent nl nd t
                in if ir < length children then
                     (case index children (int ir) of
                        Inl e \<Rightarrow> Inl e
                      | Inr nr \<Rightarrow>
                         (let t = set_right nd nr t;
                              t = set_parent nr nd t
                          in constructLevel_loop children sz (i + 1) (parents @ [nd]) t))
                   else constructLevel_loop children sz (i + 1) (parents @ [nd]) t))
      else Inr (parents, t))"
  by pat_completeness auto
termination
  by (relation "measure (\<lambda>(children, sz, i, parents, t). sz - i)") auto

declare constructLevel_loop.simps [simp del]

definition constructLevel :: "Level \<Rightarrow> Tree \<Rightarrow> error + (Level \<times> Tree)" where
  "constructLevel children t =
     (let sz = (length children + (length children mod 2)) div 2
      in constructLevel_loop children sz 0 [] t)"

text \<open>
  \<open>hashing\<close>: the walk from \<open>nd\<close> down to unhashed nodes and back up through the
  \<open>parent\<close> pointers.  The loop has no bound of its own, so it is a partial function:
  \<open>None\<close> is a walk that never returns.  \<open>n\<close> is the current pointer, nil once
  \<open>n = n.parent\<close> has read a nil parent (the next \<open>n.h\<close> then panics).
\<close>

partial_function (option) hashing_loop ::
  "engine \<Rightarrow> ref \<Rightarrow> ref option \<Rightarrow> (ref \<Rightarrow> Node) \<Rightarrow> ((error + slice) \<times> (ref \<Rightarrow> Node)) option" where
  "hashing_loop H nd n hp =
     (case n of
        None \<Rightarrow> Some (Inl NilDereference, hp)
      | Some a \<Rightarrow>
         if node_h (hp a) \<noteq> None then
           (if a = nd then Some (Inr (node_h (hp a)), hp)
            else hashing_loop H nd (node_parent (hp a)) hp)
         else if IsLeaf (hp a) then Some (Inl LeafWithoutValue, hp)
         else
           (case node_left (hp a) of
              None \<Rightarrow> Some (Inl NilDereference, hp)
            | Some l \<Rightarrow>
               if node_h (hp l) = None then hashing_loop H nd (Some l) hp
               else
                 (case node_right (hp a) of
                    None \<Rightarrow>
                      (let hp = hp(a := (hp a)\<lparr>node_h := hash_sum H (bytes_of (node_h (hp l)))\<rparr>)
                       in if a = nd then Some (Inr (node_h (hp a)), hp)
                          else hashing_loop H nd (node_parent (hp a)) hp)
                  | Some r \<Rightarrow>
                      if node_h (hp r) = None then hashing_loop H nd (Some r) hp
                      else
                        (let hp = hp(a := (hp a)\<lparr>node_h :=
                                   hash_sum H (bytes_of (node_h (hp l)) @ bytes_of (node_h (hp r)))\<rparr>)
                         in if a = nd then Some (Inr (node_h (hp a)), hp)
                            else hashing_loop H nd (node_parent (hp a)) hp))))"

declare hashing_loop.simps [code]

definition hashing :: "engine \<Rightarrow> ref \<Rightarrow> Tree \<Rightarrow> ((error + slice) \<times> Tree) option" where
  "hashing H nd t =
     (case hashing_loop H nd (Some nd) (heap t) of
        None \<Rightarrow> None
      | Some (r, hp) \<Rightarrow> Some (r, t\<lparr>heap := hp\<rparr>))"

definition setHashes :: "engine \<Rightarrow> Tree \<Rightarrow> ((error + slice) \<times> Tree) option" where
  "setHashes H t = (case root t of Inl e \<Rightarrow> Some (Inl e, t) | Inr r \<Rightarrow> hashing H r t)"

text \<open>The first loop of \<open>Construct\<close>: one leaf node per value, holding the value's digest.\<close>

fun make_leaves :: "engine \<Rightarrow> bytes list \<Rightarrow> Level \<Rightarrow> Tree \<Rightarrow> Level \<times> Tree" where
  "make_leaves H [] lvl t = (lvl, t)"
| "make_leaves H (val # vals) lvl t =
     (let h = hash_sum H val;
          (nd, t) = alloc (empty_Node\<lparr>node_h := h\<rparr>) t
      in make_leaves H vals (lvl @ [nd]) t)"

text \<open>Assignment \<open>t.levels[height] = l\<close>, with the bounds check of the index.\<close>

definition set_level :: "nat \<Rightarrow> Level \<Rightarrow> Tree \<Rightarrow> error + Tree" where
  "set_level height l t =
     (if height < length (levels t) then Inr (t\<lparr>levels := (levels t)[height := l]\<rparr>)
      else Inl IndexOutOfRange)"

text \<open>The second loop of \<open>Construct\<close>: \<open>for height > 0\<close>, build the level above.\<close>

fun build_levels :: "nat \<Rightarrow> Tree \<Rightarrow> error + Tree" where
  "build_levels 0 t = Inr t"
| "build_levels (Suc height) t =
     (case index (levels t) (int (Suc height)) of
        Inl e \<Rightarrow> Inl e
      | Inr children \<Rightarrow>
         (case constructLevel children t of
            Inl e \<Rightarrow> Inl e
          | Inr (parents, t) \<Rightarrow>
             (case set_level height parents t of
                Inl e \<Rightarrow> Inl e
              | Inr t \<Rightarrow> build_levels height t)))"

text \<open>
  \<open>Construct\<close> up to the call of \<open>setHashes\<close>: the levels are allocated and linked.
  The heights computed by \<open>calcTreeHeight\<close> for a non-zero count are at least 2; the
  decrement \<open>height--\<close> of a zero height would give the index -1, which panics.
\<close>

definition link_levels :: "engine \<Rightarrow> bytes list \<Rightarrow> Tree \<Rightarrow> error + Tree" where
  "link_levels H vals t =
     (let count = length vals;
          height = calcTreeHeight count;
          t = t\<lparr>levels := replicate height []\<rparr>
      in if height = 0 then Inl IndexOutOfRange
         else
           (let height = height - 1;
                (leaves, t) = make_leaves H vals [] t
            in case set_level height leaves t of
                 Inl e \<Rightarrow> Inl e
               | Inr t \<Rightarrow> build_levels height t))"

text \<open>
  \<open>Construct\<close> returns the digest or the error beside the tree after the call.  A
  panic ends the program, so for a panic the tree reported is the one at entry.
\<close>

definition Construct :: "engine \<Rightarrow> bytes list \<Rightarrow> Tree \<Rightarrow> ((error + slice) \<times> Tree) option" where
  "Construct H vals t =
     (if \<not> Empty t then Some (Inl TreeNotEmpty, t)
      else if length vals = 0 then Some (Inl NoVals, t)
      else
        (case link_levels H vals t of
           Inl e \<Rightarrow> Some (Inl e, t)
         | Inr t \<Rightarrow> setHashes H t))"

section \<open>Proofs of inclusion\<close>

text \<open>
  A \<open>Branch\<close> is a slice of byte slices; an entry made by \<open>ComputeProof\<close> is a
  direction byte followed by the sibling's digest.  \<open>ComputeProof\<close> builds every slice
  of the \<open>Proof\<close> it returns in a new array (\<open>append\<close> onto the one-byte literal
  \<open>[]byte{0}\<close> or \<open>[]byte{1}\<close>, and \<open>hash.Sum(nil)\<close>) and writes into no array
  that existed before, so its result is given by the contents of these slices.
\<close>

type_synonym Branch = "slice list"

record Proof =
  proof_br :: Branch
  proof_h :: bytes

definition NewProof :: "Branch \<Rightarrow> bytes \<Rightarrow> Proof" where
  "NewProof br h = \<lparr>proof_br = br, proof_h = h\<rparr>"

text \<open>
  \<open>for i, _ = range leaves { if bytes.Equal(leaves[i].h, h) { break } }\<close>:
  the range statement assigns the indices \<open>0, ..., len(leaves) - 1\<close> to \<open>i\<close> in turn
  and assigns nothing once they are used up, so after a scan without a match \<open>i\<close> is
  the last index; over an empty level \<open>i\<close> keeps its initial value 0.
\<close>

function range_scan :: "(ref \<Rightarrow> Node) \<Rightarrow> Level \<Rightarrow> slice \<Rightarrow> nat \<Rightarrow> nat" where
  "range_scan hp leaves h i =
     (if bytes_Equal (node_h (hp (leaves ! i))) h then i
      else if i + 1 < length leaves then range_scan hp leaves h (i + 1)
      else i)"
  by pat_completeness auto
termination
  by (relation "measure (\<lambda>(hp, leaves, h, i). length leaves - i)") auto

declare range_scan.simps [simp del]

definition find_leaf :: "(ref \<Rightarrow> Node) \<Rightarrow> Level \<Rightarrow> slice \<Rightarrow> nat" where
  "find_leaf hp leaves h = (if leaves = [] then 0 else range_scan hp leaves h 0)"

text \<open>
  The branch entry for position \<open>i\<close> of a level: the digest of the node at \<open>i ^ 1\<close>
  behind the byte 0 when \<open>(i ^ 1) & 1 == 0\<close> and behind the byte 1 otherwise.
  \<open>level[i ^ 1]\<close> is an unguarded index.
\<close>

definition branch_entry :: "(ref \<Rightarrow> Node) \<Rightarrow> Level \<Rightarrow> nat \<Rightarrow> error + slice" where
  "branch_entry hp lvl i =
     (if (i XOR 1) AND 1 = 0 then
        (case index lvl (int (i XOR 1)) of
           Inl e \<Rightarrow> Inl e
         | Inr sib \<Rightarrow> Inr (Some (0 # bytes_of (node_h (hp sib)))))
      else
        (case index lvl (int (i XOR 1)) of
           Inl e \<Rightarrow> Inl e
         | Inr sib \<Rightarrow> Inr (Some (1 # bytes_of (node_h (hp sib))))))"

function proof_loop :: "Tree \<Rightarrow> nat \<Rightarrow> int \<Rightarrow> Branch \<Rightarrow> error + Branch" where
  "proof_loop t i height br =
     (let i = i div 2; height = height - 1
      in case level t height of
           Inl e \<Rightarrow> Inl e
         | Inr lvl \<Rightarrow>
            if length lvl = 1 then Inr br
            else
              (case branch_entry (heap t) lvl i of
                 Inl e \<Rightarrow> Inl e
               | Inr en \<Rightarrow> proof_loop t i height (br @ [en])))"
  by pat_completeness auto
termination
  by (relation "measure (\<lambda>(t, i, height, br). nat height)")
     (auto simp: level_def Let_def split: if_splits)

declare proof_loop.simps [simp del]

definition ComputeProof :: "engine \<Rightarrow> bytes \<Rightarrow> Tree \<Rightarrow> error + Proof" where
  "ComputeProof H val t =
     (let h = hash_sum H val;
          height = Height t
      in case level t height of
           Inl e \<Rightarrow> Inl e
         | Inr leaves \<Rightarrow>
            (let i = find_leaf (heap t) leaves h
             in if i = length leaves then Inl ValNotFound
                else
                  (case branch_entry (heap t) leaves i of
                     Inl e \<Rightarrow> Inl e
                   | Inr en \<Rightarrow>
                      (case proof_loop t i height [en] of
                         Inl e \<Rightarrow> Inl e
                       | Inr br \<Rightarrow> Inr (NewProof br (bytes_of h))))))"

section \<open>Verification of a proof\<close>

text \<open>
  \<open>VerifyProof\<close> receives the slices of a \<open>Proof\<close> from its caller (\<open>NewProof\<close> and
  \<open>Branch\<close> are exported), and \<open>p.h = append(h, p.h...)\<close> and \<open>p.h = append(p.h,
  h...)\<close> write into the backing array of their first operand wherever its capacity
  allows.  For \<open>VerifyProof\<close> a byte slice is therefore a slice header (array, offset,
  length, capacity) into a store of byte arrays, nil being \<open>None\<close>.  \<open>NodeArr a\<close> is
  the array that holds the digest of the node at address \<open>a\<close> (the slice \<open>Construct\<close>
  returns shares the array of the root's digest), \<open>Buf k\<close> any other array; \<open>cells m\<close>
  gives the bytes of each array, over its whole capacity, and the arrays \<open>Buf k\<close> with
  \<open>k < nbuf m\<close> are the ones allocated so far.
\<close>

datatype arr = NodeArr ref | Buf nat

record bslice =
  s_arr :: arr
  s_off :: nat
  s_len :: nat
  s_cap :: nat

type_synonym gslice = "bslice option"

record memory =
  cells :: "arr \<Rightarrow> bytes"
  nbuf :: nat

text \<open>The bytes a slice shows: \<open>s_len\<close> bytes of its array from \<open>s_off\<close> on.\<close>

fun contents :: "memory \<Rightarrow> gslice \<Rightarrow> bytes" where
  "contents m None = []"
| "contents m (Some s) = take (s_len s) (drop (s_off s) (cells m (s_arr s)))"

text \<open>
  A slice over a new array that holds \<open>bs\<close>: the result of \<open>hash.Sum(nil)\<close>, and of an
  \<open>append\<close> that finds no room.  Nothing else refers to the new array, so any spare
  capacity the runtime gives it cannot be told from none; the model gives it none.
\<close>

definition new_array :: "bytes \<Rightarrow> memory \<Rightarrow> gslice \<times> memory" where
  "new_array bs m =
     (Some \<lparr>s_arr = Buf (nbuf m), s_off = 0, s_len = length bs, s_cap = length bs\<rparr>,
      m\<lparr>cells := (cells m)(Buf (nbuf m) := bs), nbuf := Suc (nbuf m)\<rparr>)"

text \<open>
  \<open>append(s, xs...)\<close>, the bytes \<open>xs\<close> having been read from the store before the
  call writes (\<open>append\<close> copies as \<open>memmove\<close> does when source and destination
  overlap).  When \<open>len(s) + len(xs) \<le> cap(s)\<close> the bytes are written into the array of
  \<open>s\<close> behind its last element, and the result is \<open>s\<close> with the greater length;
  otherwise the result is a new array.  \<open>append\<close> of nothing to nil is nil.
\<close>

definition append_slice :: "memory \<Rightarrow> gslice \<Rightarrow> bytes \<Rightarrow> gslice \<times> memory" where
  "append_slice m s xs =
     (case s of
        None \<Rightarrow> if xs = [] then (None, m) else new_array xs m
      | Some h \<Rightarrow>
         if s_len h + length xs \<le> s_cap h then
           (let a = cells m (s_arr h);
                p = s_off h + s_len h
            in (Some (h\<lparr>s_len := s_len h + length xs\<rparr>),
                m\<lparr>cells := (cells m)(s_arr h := take p a @ xs @ drop (p + length xs) a)\<rparr>))
         else new_array (contents m s @ xs) m)"

text \<open>\<open>h[1:]\<close> of a slice that has a first element.\<close>

definition tail_slice :: "bslice \<Rightarrow> bslice" where
  "tail_slice h = h\<lparr>s_off := s_off h + 1, s_len := s_len h - 1, s_cap := s_cap h - 1\<rparr>"

text \<open>
  The loop of \<open>VerifyProof\<close> over \<open>p.br\<close>, on the working digest \<open>p.h\<close>.  The range
  expression \<open>p.br\<close> is evaluated once and the loop writes no slice header of the
  branch, so the headers \<open>h\<close> of the iterations are those of the call; the bytes they
  show are read when the iteration runs.  An entry that is nil, or whose first byte is
  neither 0 nor 1, leaves \<open>p.h\<close> as it is before the hashing; \<open>h[0]\<close> on an empty
  non-nil entry panics.  The result is the panic, if any, with the working digest and
  the store at that moment.
\<close>

fun verify_loop ::
  "engine \<Rightarrow> gslice list \<Rightarrow> gslice \<Rightarrow> memory \<Rightarrow> error option \<times> gslice \<times> memory" where
  "verify_loop H [] ph m = (None, ph, m)"
| "verify_loop H (None # br) ph m =
     (let (ph, m) = new_array (H (contents m ph)) m
      in verify_loop H br ph m)"
| "verify_loop H (Some h # br) ph m =
     (if s_len h = 0 then (Some IndexOutOfRange, ph, m)
      else if cells m (s_arr h) ! s_off h = 0 then
        (let h = tail_slice h;
             (ph, m) = append_slice m (Some h) (contents m ph);
             (ph, m) = new_array (H (contents m ph)) m
         in verify_loop H br ph m)
      else if cells m (s_arr h) ! s_off h = 1 then
        (let h = tail_slice h;
             (ph, m) = append_slice m ph (contents m (Some h));
             (ph, m) = new_array (H (contents m ph)) m
         in verify_loop H br ph m)
      else
        (let (ph, m) = new_array (H (contents m ph)) m
         in verify_loop H br ph m))"

text \<open>
  The \<open>Proof\<close> as \<open>VerifyProof\<close> receives it: the slice headers of the branch entries
  and of the working digest.
\<close>

record proof_ref =
  ref_br :: "gslice list"
  ref_h :: gslice

text \<open>
  The slice \<open>n.h\<close> of the node at address \<open>a\<close>: nil when the node has no digest, the
  digest's bytes at the start of the node's array otherwise.  \<open>VerifyProof\<close> only
  reads this slice, so the capacity given here plays no part.
\<close>

definition node_slice :: "Tree \<Rightarrow> ref \<Rightarrow> gslice" where
  "node_slice t a =
     (case node_h (heap t a) of
        None \<Rightarrow> None
      | Some d \<Rightarrow> Some \<lparr>s_arr = NodeArr a, s_off = 0, s_len = length d, s_cap = length d\<rparr>)"

text \<open>
  \<open>VerifyProof\<close> writes the working digest back into the proof it was given (\<open>p\<close> is
  a pointer) and may have written into the arrays of the caller, so the model returns
  the proof and the store after the call beside the result.  \<open>bytes.Equal\<close> compares
  the bytes that \<open>root.h\<close> and \<open>p.h\<close> show at the end of the loop.
\<close>

definition VerifyProof ::
  "engine \<Rightarrow> Tree \<Rightarrow> memory \<Rightarrow> proof_ref \<Rightarrow> (error + bool) \<times> proof_ref \<times> memory" where
  "VerifyProof H t m p =
     (case verify_loop H (ref_br p) (ref_h p) m of
        (Some e, ph, m) \<Rightarrow> (Inl e, p\<lparr>ref_h := ph\<rparr>, m)
      | (None, ph, m) \<Rightarrow>
         (let p = p\<lparr>ref_h := ph\<rparr>
          in case root t of
               Inl e \<Rightarrow> (Inl e, p, m)
             | Inr r \<Rightarrow> (Inr (contents m (node_slice t r) = contents m (ref_h p)), p, m)))"

text \<open>
  The store of a program that holds the tree \<open>t\<close>: the array of each node's digest,
  and the arrays \<open>bufs k\<close>, \<open>k < n\<close>, of the caller.
\<close>

definition tree_memory :: "Tree \<Rightarrow> (nat \<Rightarrow> bytes) \<Rightarrow> nat \<Rightarrow> memory" where
  "tree_memory t bufs n =
     \<lparr>cells = (\<lambda>a. case a of NodeArr r \<Rightarrow> bytes_of (node_h (heap t r)) | Buf k \<Rightarrow> bufs k),
      nbuf = n\<rparr>"

text \<open>
  The slices of a \<open>Proof\<close> as \<open>ComputeProof\<close> makes them: the working digest first,
  then the entries, each in a new array.  \<open>spare n\<close> is the capacity the runtime gives
  a new array of \<open>n\<close> bytes beyond \<open>n\<close>; the spare bytes are zero.
\<close>

definition place :: "(nat \<Rightarrow> nat) \<Rightarrow> bytes \<Rightarrow> memory \<Rightarrow> bslice \<times> memory" where
  "place spare bs m =
     (\<lparr>s_arr = Buf (nbuf m), s_off = 0, s_len = length bs,
        s_cap = length bs + spare (length bs)\<rparr>,
      m\<lparr>cells := (cells m)(Buf (nbuf m) := bs @ replicate (spare (length bs)) 0),
        nbuf := Suc (nbuf m)\<rparr>)"

fun place_entries :: "(nat \<Rightarrow> nat) \<Rightarrow> Branch \<Rightarrow> memory \<Rightarrow> gslice list \<times> memory" where
  "place_entries spare [] m = ([], m)"
| "place_entries spare (None # br) m =
     (let (hs, m) = place_entries spare br m in (None # hs, m))"
| "place_entries spare (Some bs # br) m =
     (let (h, m) = place spare bs m;
          (hs, m) = place_entries spare br m
      in (Some h # hs, m))"

definition place_proof :: "(nat \<Rightarrow> nat) \<Rightarrow> Proof \<Rightarrow> memory \<Rightarrow> proof_ref \<times> memory" where
  "place_proof spare p m =
     (let (h, m) = place spare (proof_h p) m;
          (hs, m) = place_entries spare (proof_br p) m
      in (\<lparr>ref_br = hs, ref_h = Some h\<rparr>, m))"

section \<open>Reference notions used by the properties\<close>

text \<open>
  An engine with digests of one byte (the length of the input plus the sum of its
  bytes), for the concrete instances of the properties.
\<close>

definition checksum :: engine where
  "checksum bs = [of_nat (length bs) + sum_list bs]"

text \<open>An engine that gives every input the same one-byte digest.\<close>

definition constant_engine :: engine where
  "constant_engine bs = [7]"

text \<open>
  A branch entry in the words of the specification: a direction and the sibling's
  digest.  \<open>encode_entry\<close> is the byte encoding \<open>ComputeProof\<close> writes (byte 0 in
  front of a sibling that stands on the left, byte 1 in front of one on the right), and
  \<open>fold_branch\<close> the fold of the specification over the entries: \<open>hash(sibling ++
  working)\<close> for \<open>LEFT\<close>, \<open>hash(working ++ sibling)\<close> for \<open>RIGHT\<close>.
\<close>

datatype direction = LEFT | RIGHT

fun encode_entry :: "direction \<times> bytes \<Rightarrow> slice" where
  "encode_entry (LEFT, sib) = Some (0 # sib)"
| "encode_entry (RIGHT, sib) = Some (1 # sib)"

fun combine :: "engine \<Rightarrow> bytes \<Rightarrow> direction \<times> bytes \<Rightarrow> bytes" where
  "combine H d (LEFT, sib) = H (sib @ d)"
| "combine H d (RIGHT, sib) = H (d @ sib)"

definition fold_branch :: "engine \<Rightarrow> (direction \<times> bytes) list \<Rightarrow> bytes \<Rightarrow> bytes" where
  "fold_branch H es d = foldl (combine H) d es"

text \<open>The size of the level above a level of \<open>n\<close> nodes, as \<open>constructLevel\<close> computes it.\<close>

definition half_up :: "nat \<Rightarrow> nat" where
  "half_up n = (n + n mod 2) div 2"

section \<open>The shape of a linked subtree\<close>

text \<open>
  The pointer structure below a node, as a term: the address of each node, the digest
  of each leaf.  \<open>linked hp s\<close> says that the store \<open>hp\<close> holds this structure with
  the leaves hashed and the inner nodes not yet; \<open>dig\<close> is the digest the rule of the
  specification gives a node, and \<open>fill\<close> the store with those digests written.
\<close>

datatype shape = Lf ref bytes | Nd1 ref shape | Nd2 ref shape shape

fun top :: "shape \<Rightarrow> ref" where
  "top (Lf a d) = a"
| "top (Nd1 a l) = a"
| "top (Nd2 a l r) = a"

fun refs :: "shape \<Rightarrow> ref list" where
  "refs (Lf a d) = [a]"
| "refs (Nd1 a l) = a # refs l"
| "refs (Nd2 a l r) = a # refs l @ refs r"

fun dig :: "engine \<Rightarrow> shape \<Rightarrow> bytes" where
  "dig H (Lf a d) = d"
| "dig H (Nd1 a l) = H (dig H l)"
| "dig H (Nd2 a l r) = H (dig H l @ dig H r)"

fun linked :: "(ref \<Rightarrow> Node) \<Rightarrow> shape \<Rightarrow> bool" where
  "linked hp (Lf a d) =
     (node_h (hp a) = Some d \<and> node_left (hp a) = None \<and> node_right (hp a) = None)"
| "linked hp (Nd1 a l) =
     (node_h (hp a) = None \<and> node_left (hp a) = Some (top l) \<and> node_right (hp a) = None \<and>
      node_parent (hp (top l)) = Some a \<and> linked hp l)"
| "linked hp (Nd2 a l r) =
     (node_h (hp a) = None \<and> node_left (hp a) = Some (top l) \<and> node_right (hp a) = Some (top r) \<and>
      node_parent (hp (top l)) = Some a \<and> node_parent (hp (top r)) = Some a \<and>
      linked hp l \<and> linked hp r)"

fun fill :: "engine \<Rightarrow> (ref \<Rightarrow> Node) \<Rightarrow> shape \<Rightarrow> (ref \<Rightarrow> Node)" where
  "fill H hp (Lf a d) = hp"
| "fill H hp (Nd1 a l) =
     (let hp1 = fill H hp l in hp1(a := (hp1 a)\<lparr>node_h := Some (H (dig H l))\<rparr>))"
| "fill H hp (Nd2 a l r) =
     (let hp1 = fill H hp l; hp2 = fill H hp1 r
      in hp2(a := (hp2 a)\<lparr>node_h := Some (H (dig H l @ dig H r))\<rparr>))"

text \<open>
  The shapes of a level: \<open>leaf_shapes\<close> for the leaves allocated from the address
  \<open>f\<close> on, \<open>pair_shapes\<close> for the parents \<open>constructLevel\<close> allocates from \<open>f\<close> on
  over the shapes of the children; \<open>pair_up\<close> gives the parents' digests from the
  children's.  \<open>tops_at m s\<close> lists the subtrees \<open>m\<close> levels below the top of \<open>s\<close>,
  left to right.  \<open>good t ss\<close>: the shapes stand in the store of \<open>t\<close>, share no
  address and lie below the allocation pointer.
\<close>

fun leaf_shapes :: "ref \<Rightarrow> bytes list \<Rightarrow> shape list" where
  "leaf_shapes f [] = []"
| "leaf_shapes f (d # ds) = Lf f d # leaf_shapes (Suc f) ds"

fun pair_shapes :: "ref \<Rightarrow> shape list \<Rightarrow> shape list" where
  "pair_shapes f [] = []"
| "pair_shapes f [s] = [Nd1 f s]"
| "pair_shapes f (s1 # s2 # ss) = Nd2 f s1 s2 # pair_shapes (Suc f) ss"

fun pair_up :: "engine \<Rightarrow> bytes list \<Rightarrow> bytes list" where
  "pair_up H [] = []"
| "pair_up H [d] = [H d]"
| "pair_up H (d1 # d2 # ds) = H (d1 @ d2) # pair_up H ds"

fun tops_at :: "nat \<Rightarrow> shape \<Rightarrow> shape list" where
  "tops_at 0 s = [s]"
| "tops_at (Suc m) (Lf a d) = []"
| "tops_at (Suc m) (Nd1 a l) = tops_at m l"
| "tops_at (Suc m) (Nd2 a l r) = tops_at m l @ tops_at m r"

definition row :: "nat \<Rightarrow> shape list \<Rightarrow> shape list" where
  "row m ss = concat (map (tops_at m) ss)"

definition good :: "Tree \<Rightarrow> shape list \<Rightarrow> bool" where
  "good t ss =
     ((\<forall>s \<in> set ss. linked (heap t) s) \<and> distinct (concat (map refs ss)) \<and>
      (\<forall>s \<in> set ss. \<forall>a \<in> set (refs s). a < fresh t))"

text \<open>One iteration of the loop of \<open>constructLevel\<close> on a pair of children.\<close>

definition link2 :: "ref \<Rightarrow> ref \<Rightarrow> Tree \<Rightarrow> Tree" where
  "link2 c1 c2 t =
     set_parent c2 (fresh t) (set_right (fresh t) c2
       (set_parent c1 (fresh t) (set_left (fresh t) c1 (snd (alloc empty_Node t)))))"

definition link1 :: "ref \<Rightarrow> Tree \<Rightarrow> Tree" where
  "link1 c1 t = set_parent c1 (fresh t) (set_left (fresh t) c1 (snd (alloc empty_Node t)))"

section \<open>The reference Merkle root\<close>

text \<open>
  The root digest in the words of the specification: the leaves hold the digests of the
  values in input order; the level above a level pairs the nodes \<open>2i\<close> and \<open>2i+1\<close>,
  a parent of two children holding \<open>hash(left ++ right)\<close> and a parent of a lone left
  child \<open>hash(left)\<close> (this is \<open>pair_up\<close>); levels are built, at least one, until a
  level holds a single node, the root.  \<open>digest_row H vals j\<close> is the row of digests of
  level \<open>j\<close> (level 0 is the root level) of the tree of the height \<open>calcTreeHeight\<close>
  gives.
\<close>

function merkle_reduce :: "engine \<Rightarrow> bytes list \<Rightarrow> bytes" where
  "merkle_reduce H ds =
     (let ps = pair_up H ds
      in if length ps \<le> 1 then (case ps of [] \<Rightarrow> [] | d # _ \<Rightarrow> d)
         else merkle_reduce H ps)"
  by pat_completeness auto
termination
proof (relation "measure (\<lambda>(H, ds). length ds)")
  show "wf (measure (\<lambda>(H, ds). length ds))" by simp
next
  fix H :: engine and ds ps :: "bytes list"
  assume ps: "ps = pair_up H ds" and big: "\<not> length ps \<le> 1"
  have "length (pair_up H ds) = (length ds + length ds mod 2) div 2"
    by (induction H ds rule: pair_up.induct) simp_all
  with ps big have "length ps < length ds" by simp
  then show "((H, ps), (H, ds)) \<in> measure (\<lambda>(H, ds). length ds)" by simp
qed

declare merkle_reduce.simps [simp del]

definition merkle_root :: "engine \<Rightarrow> bytes list \<Rightarrow> bytes" where
  "merkle_root H vals = merkle_reduce H (map H vals)"

definition digest_row :: "engine \<Rightarrow> bytes list \<Rightarrow> nat \<Rightarrow> bytes list" where
  "digest_row H vals j = (pair_up H ^^ (calcTreeHeight (length vals) - 1 - j)) (map H vals)"

text \<open>
  \<open>has_rows t h R\<close>: the tree has \<open>h\<close> levels and the nodes of level \<open>j\<close> hold the
  digests \<open>R j\<close>, in order.
\<close>

definition has_rows :: "Tree \<Rightarrow> nat \<Rightarrow> (nat \<Rightarrow> bytes list) \<Rightarrow> bool" where
  "has_rows t h R =
     (length (levels t) = h \<and>
      (\<forall>j < h. map (\<lambda>a. node_h (heap t a)) (levels t ! j) = map Some (R j)))"

text \<open>
  The branch of the leaf at position \<open>i\<close> of level \<open>m\<close>, in the words of the
  specification: at each level the sibling at \<open>i XOR 1\<close>, with direction \<open>LEFT\<close> when
  \<open>i\<close> is odd and \<open>RIGHT\<close> when it is even, then the parent position \<open>i / 2\<close> one
  level up, stopping below the root.
\<close>

fun path_entries :: "(nat \<Rightarrow> bytes list) \<Rightarrow> nat \<Rightarrow> nat \<Rightarrow> (direction \<times> bytes) list" where
  "path_entries R 0 i = []"
| "path_entries R (Suc m) i =
     (if odd i then LEFT else RIGHT, R (Suc m) ! (i XOR 1)) # path_entries R m (i div 2)"

text \<open>
  \<open>wf_slice m s\<close>: the slice \<open>s\<close> lies in an allocated array of the caller, not in
  the array of a node's digest; its length is at most its capacity, and its capacity
  ends within the array.  \<open>separate m hs ph\<close>: the entries \<open>hs\<close> and the working
  digest \<open>ph\<close> are such slices (or \<open>ph\<close> is nil), no two of them in the same array.
\<close>

definition wf_slice :: "memory \<Rightarrow> bslice \<Rightarrow> bool" where
  "wf_slice m s =
     ((case s_arr s of NodeArr a \<Rightarrow> False | Buf k \<Rightarrow> k < nbuf m) \<and>
      s_len s \<le> s_cap s \<and> s_off s + s_cap s \<le> length (cells m (s_arr s)))"

definition separate :: "memory \<Rightarrow> bslice list \<Rightarrow> gslice \<Rightarrow> bool" where
  "separate m hs ph =
     ((\<forall>h \<in> set hs. wf_slice m h) \<and> distinct (map s_arr hs) \<and>
      (case ph of None \<Rightarrow> True | Some p \<Rightarrow> wf_slice m p \<and> s_arr p \<notin> set (map s_arr hs)))"

text \<open>
  \<open>kept gs m m'\<close>: from the store \<open>m\<close> to the store \<open>m'\<close> no array was freed, the
  arrays of the nodes' digests are as they were, and so are the arrays of the slices
  \<open>gs\<close> up to the last byte each slice shows.
\<close>

definition kept :: "bslice list \<Rightarrow> memory \<Rightarrow> memory \<Rightarrow> bool" where
  "kept gs m m' =
     (nbuf m \<le> nbuf m' \<and> (\<forall>a. cells m' (NodeArr a) = cells m (NodeArr a)) \<and>
      (\<forall>g \<in> set gs. length (cells m' (s_arr g)) = length (cells m (s_arr g)) \<and>
         take (s_off g + s_len g) (cells m' (s_arr g)) =
           take (s_off g + s_len g) (cells m (s_arr g))))"






text \<open>
  The arrays of a proof of one entry, for the first of two values under
  \<open>checksum\<close>: the entry (byte 1, sibling digest 3) and the working digest 2.
\<close>

definition pair_buffers :: "nat \<Rightarrow> bytes" where
  "pair_buffers k = (if k = 0 then [1, 3] else if k = 1 then [2] else [])"

text \<open>
  The spare capacity of a new array when arrays are sized in multiples of eight bytes.
\<close>

definition spare8 :: "nat \<Rightarrow> nat" where
  "spare8 n = 7 - (n + 7) mod 8"

text \<open>
  The sequence of the demonstration program (construct on a new tree, compute the proof
  of a value, verify it), with the verification run a second time on the same proof:
  the branch of the proof and the two results.
\<close>

definition replay ::
  "(nat \<Rightarrow> nat) \<Rightarrow> engine \<Rightarrow> bytes list \<Rightarrow> bytes \<Rightarrow>
     (Branch \<times> (error + bool) \<times> (error + bool)) option" where
  "replay spare H vals v =
     (case Construct H vals NewTree of
        None \<Rightarrow> None
      | Some (r, t) \<Rightarrow>
         (case ComputeProof H v t of
            Inl e \<Rightarrow> None
          | Inr p \<Rightarrow>
             (let (q, m) = place_proof spare p (tree_memory t (\<lambda>k. []) 0);
                  (first, q1, m1) = VerifyProof H t m q;
                  (second, q2, m2) = VerifyProof H t m1 q1
              in Some (proof_br p, first, second))))"

section \<open>Errors of Construct\<close>

lemma hashing_loop_errors_aux:
  assumes "hashing_loop H nd n hp = Some y"
  shows "\<forall>e. fst y = Inl e \<longrightarrow> e = NilDereference \<or> e = LeafWithoutValue"
proof (rule hashing_loop.raw_induct[where P = "\<lambda>_ _ _ _ y. \<forall>e. fst y = Inl e \<longrightarrow> e = NilDereference \<or> e = LeafWithoutValue", OF _ assms], goal_cases)
  case (1 loop H nd n hp y)
  from 1(2) have "(\<exists>e hp'. y = (Inl e, hp') \<and> (e = NilDereference \<or> e = LeafWithoutValue))
      \<or> (\<exists>r hp'. y = (Inr r, hp')) \<or> (\<exists>n' hp'. loop H nd n' hp' = Some y)"
    by (simp split: option.splits if_splits add: Let_def) blast+
  then show ?case using 1(1) by (cases y) fastforce
qed

lemma hashing_loop_errors:
  "hashing_loop H nd n hp = Some (Inl e, hp') \<Longrightarrow> e = NilDereference \<or> e = LeafWithoutValue"
  using hashing_loop_errors_aux by fastforce

lemma setHashes_errors:
  assumes "setHashes H t = Some (Inl e, t')"
  shows "e = NilDereference \<or> e = LeafWithoutValue \<or> e = IndexOutOfRange"
proof (cases "root t")
  case (Inl e')
  with assms show ?thesis
    by (auto simp: setHashes_def root_def index_def split: sum.splits if_splits)
next
  case (Inr r)
  with assms obtain hp where "hashing_loop H r (Some r) (heap t) = Some (Inl e, hp)"
    by (auto simp: setHashes_def hashing_def split: option.splits)
  then show ?thesis using hashing_loop_errors by blast
qed

text \<open>
  C6.  \<open>Construct\<close> on a tree that is not empty fails with ``Tree is not empty''
  (InvalidState), and \<open>Construct\<close> of no values on an empty tree fails with ``No vals''
  (EmptyInput); the result is the error, not a digest.
\<close>

theorem Construct_rejects:
  "(\<not> Empty t \<longrightarrow> map_option fst (Construct H vals t) = Some (Inl TreeNotEmpty))
   \<and> (Empty t \<longrightarrow> map_option fst (Construct H [] t) = Some (Inl NoVals))"
  by (simp add: Construct_def)

theorem Construct_rejects_witness:
  "(\<not> Empty (NewTree\<lparr>levels := [[0]]\<rparr>) \<and>
      map_option fst (Construct checksum [[1]] (NewTree\<lparr>levels := [[0]]\<rparr>)) = Some (Inl TreeNotEmpty))
   \<and> (Empty NewTree \<and> map_option fst (Construct checksum [] NewTree) = Some (Inl NoVals))"
  using Construct_rejects[of "NewTree\<lparr>levels := [[0]]\<rparr>" checksum "[[1]]"]
        Construct_rejects[of NewTree checksum "[[1]]"]
  by (simp add: Empty_def Height_def NewTree_def)

text \<open>
  C10.  When \<open>Construct\<close> returns the error of one of its two entry checks, the tree
  and its memory after the call are the ones before the call: \<open>Height\<close>, \<open>Empty\<close>
  and the levels are unchanged.
\<close>

theorem Construct_error_unchanged:
  assumes "Construct H vals t = Some (Inl e, t')" and "e = TreeNotEmpty \<or> e = NoVals"
  shows "t' = t \<and> Height t' = Height t \<and> Empty t' = Empty t \<and> levels t' = levels t"
proof -
  have "t' = t"
  proof (cases "\<not> Empty t \<or> length vals = 0")
    case True
    with assms(1) show ?thesis by (auto simp: Construct_def split: if_splits)
  next
    case False
    show ?thesis
    proof (cases "link_levels H vals t")
      case (Inl e')
      with False assms(1) show ?thesis by (simp add: Construct_def)
    next
      case (Inr t1)
      with False assms(1) have "setHashes H t1 = Some (Inl e, t')" by (simp add: Construct_def)
      from setHashes_errors[OF this] assms(2) show ?thesis by auto
    qed
  qed
  then show ?thesis by simp
qed

theorem Construct_error_unchanged_witness:
  "Construct checksum [] NewTree = Some (Inl NoVals, NewTree) \<and> (NoVals = TreeNotEmpty \<or> NoVals = NoVals)
   \<and> NewTree = NewTree \<and> Height NewTree = Height NewTree \<and> Empty NewTree = Empty NewTree
   \<and> levels NewTree = levels NewTree"
proof -
  have c: "Construct checksum [] NewTree = Some (Inl NoVals, NewTree)"
    by (simp add: Construct_def Empty_def Height_def NewTree_def)
  show ?thesis using Construct_error_unchanged[OF c] c by simp
qed

section \<open>The level lookup\<close>

lemma level_cases:
  "level t height =
     (if height \<le> 0 \<or> Height t + 1 < height then Inl HeightOutOfRange
      else if height = Height t + 1 then Inl IndexOutOfRange
      else Inr (levels t ! nat (height - 1)))"
  by (auto simp: level_def index_def Height_def Let_def)

text \<open>
  C7.  The guard of \<open>level\<close> compares the decremented height with \<open>Height()\<close> by
  \<open>>\<close>, so the height \<open>Height() + 1\<close>, which lies outside \<open>[1, Height()]\<close>, passes
  the guard and indexes \<open>t.levels\<close> at its length: the lookup panics instead of
  returning ``Height out of range''.
\<close>

theorem level_above_Height: "level t (Height t + 1) = Inl IndexOutOfRange"
  by (simp add: level_def index_def Height_def)

section \<open>Verification\<close>

text \<open>
  What a call of \<open>VerifyProof\<close> leaves of the store.  A write of \<open>append\<close> lands
  behind the last byte its first operand shows, or in a new array; so when the entries
  and the working digest each have an array of their own, every entry still shows its
  bytes when its iteration reads them, and the loop computes the fold of the entries.
\<close>

lemma kept_refl: "kept gs m m"
  by (simp add: kept_def)

lemma kept_trans: "kept gs m m1 \<Longrightarrow> kept gs m1 m2 \<Longrightarrow> kept gs m m2"
  by (auto simp: kept_def)

lemma kept_mono: "set gs \<subseteq> set gs' \<Longrightarrow> kept gs' m m' \<Longrightarrow> kept gs m m'"
  by (auto simp: kept_def)

lemma contents_kept:
  assumes "kept gs m m'" "g \<in> set gs"
  shows "contents m' (Some g) = contents m (Some g)"
proof -
  have "take (s_off g + s_len g) (cells m' (s_arr g)) = take (s_off g + s_len g) (cells m (s_arr g))"
    using assms by (simp add: kept_def)
  then have "drop (s_off g) (take (s_len g + s_off g) (cells m' (s_arr g))) =
             drop (s_off g) (take (s_len g + s_off g) (cells m (s_arr g)))"
    by (simp add: add.commute)
  then show ?thesis by (simp add: take_drop)
qed

lemma wf_kept:
  assumes "kept gs m m'" "g \<in> set gs" "wf_slice m g"
  shows "wf_slice m' g"
  using assms by (auto simp: kept_def wf_slice_def split: arr.splits)

lemma root_kept:
  assumes "kept gs m m'"
  shows "contents m' (node_slice t r) = contents m (node_slice t r)"
  using assms by (simp add: kept_def node_slice_def split: option.splits)

lemma new_array_kept:
  assumes "\<forall>g \<in> set gs. wf_slice m g" "new_array bs m = (ph, m')"
  shows "kept gs m m'" "contents m' ph = bs"
    "\<exists>s. ph = Some s \<and> wf_slice m' s \<and> s_arr s = Buf (nbuf m)" "nbuf m' = Suc (nbuf m)"
proof -
  have m': "m' = m\<lparr>cells := (cells m)(Buf (nbuf m) := bs), nbuf := Suc (nbuf m)\<rparr>"
    and ph: "ph = Some \<lparr>s_arr = Buf (nbuf m), s_off = 0, s_len = length bs, s_cap = length bs\<rparr>"
    using assms(2) by (auto simp: new_array_def)
  have "s_arr g \<noteq> Buf (nbuf m)" if "g \<in> set gs" for g
    using assms(1) that by (auto simp: wf_slice_def split: arr.splits)
  then show "kept gs m m'" by (simp add: kept_def m')
  show "contents m' ph = bs" by (simp add: m' ph)
  show "\<exists>s. ph = Some s \<and> wf_slice m' s \<and> s_arr s = Buf (nbuf m)"
    by (simp add: m' ph wf_slice_def)
  show "nbuf m' = Suc (nbuf m)" by (simp add: m')
qed

lemma write_behind:
  assumes "p + length xs \<le> length a" "k \<le> p"
  shows "length (take p a @ xs @ drop (p + length xs) a) = length a"
    "take p (take p a @ xs @ drop (p + length xs) a) = take p a"
    "take (p - k + length xs) (drop k (take p a @ xs @ drop (p + length xs) a)) =
       take (p - k) (drop k a) @ xs"
proof -
  have lp: "length (take p a) = p" using assms(1) by simp
  show "length (take p a @ xs @ drop (p + length xs) a) = length a" using assms(1) by simp
  show "take p (take p a @ xs @ drop (p + length xs) a) = take p a" using lp by simp
  have "drop k (take p a @ xs @ drop (p + length xs) a) =
          drop k (take p a) @ xs @ drop (p + length xs) a"
    using lp assms(2) by simp
  moreover have "length (drop k (take p a)) = p - k" using lp by simp
  moreover have "drop k (take p a) = take (p - k) (drop k a)" by (simp add: drop_take)
  ultimately show "take (p - k + length xs) (drop k (take p a @ xs @ drop (p + length xs) a)) =
       take (p - k) (drop k a) @ xs"
    by simp
qed

lemma take_eq_le:
  assumes "take p xs = take p ys" "n \<le> p"
  shows "take n xs = take n ys"
proof -
  have "take n xs = take n (take p xs)" using assms(2) by (simp add: min_def)
  also have "\<dots> = take n (take p ys)" by (simp only: assms(1))
  also have "\<dots> = take n ys" using assms(2) by (simp add: min_def)
  finally show ?thesis .
qed

lemma append_slice_kept:
  assumes wf: "wf_slice m h" and gs: "\<forall>g \<in> set gs. wf_slice m g"
    and fr: "\<forall>g \<in> set gs. s_arr g = s_arr h \<longrightarrow> s_off g + s_len g \<le> s_off h + s_len h"
    and ap: "append_slice m (Some h) xs = (ph, m')"
  shows "kept gs m m'" "contents m' ph = contents m (Some h) @ xs"
    "\<exists>s. ph = Some s \<and> wf_slice m' s \<and> (s_arr s = s_arr h \<or> s_arr s = Buf (nbuf m))"
proof -
  have A: "kept gs m m' \<and> contents m' ph = contents m (Some h) @ xs \<and>
    (\<exists>s. ph = Some s \<and> wf_slice m' s \<and> (s_arr s = s_arr h \<or> s_arr s = Buf (nbuf m)))"
  proof (cases "s_len h + length xs \<le> s_cap h")
    case False
    then have na: "new_array (contents m (Some h) @ xs) m = (ph, m')"
      using ap by (simp add: append_slice_def)
    from new_array_kept[OF gs na] show ?thesis by blast
  next
    case True
    let ?a = "cells m (s_arr h)"
    let ?p = "s_off h + s_len h"
    let ?a' = "take ?p ?a @ xs @ drop (?p + length xs) ?a"
    have m': "m' = m\<lparr>cells := (cells m)(s_arr h := ?a')\<rparr>"
      and ph: "ph = Some (h\<lparr>s_len := s_len h + length xs\<rparr>)"
      using ap True by (auto simp: append_slice_def Let_def)
    have b: "?p + length xs \<le> length ?a" using wf True by (simp add: wf_slice_def)
    note W = write_behind[OF b le_add1]
    have k: "kept gs m m'"
      unfolding kept_def
    proof (intro conjI allI ballI)
      show "nbuf m \<le> nbuf m'" by (simp add: m')
      show "cells m' (NodeArr a) = cells m (NodeArr a)" for a
        using wf by (auto simp: m' wf_slice_def split: arr.splits)
      fix g assume g: "g \<in> set gs"
      show "length (cells m' (s_arr g)) = length (cells m (s_arr g))"
        using W(1) by (simp add: m')
      show "take (s_off g + s_len g) (cells m' (s_arr g)) =
              take (s_off g + s_len g) (cells m (s_arr g))"
      proof (cases "s_arr g = s_arr h")
        case False
        then show ?thesis by (simp add: m')
      next
        case True
        then have le: "s_off g + s_len g \<le> ?p" using fr g by simp
        have "take (s_off g + s_len g) ?a' = take (s_off g + s_len g) ?a"
          by (rule take_eq_le[OF W(2) le])
        then show ?thesis using True by (simp add: m')
      qed
    qed
    have c: "contents m' ph = contents m (Some h) @ xs"
      using W(3) by (simp add: m' ph)
    have w: "wf_slice m' (h\<lparr>s_len := s_len h + length xs\<rparr>)"
      using wf True W(1) by (auto simp: wf_slice_def m' split: arr.splits)
    show ?thesis using k c w ph by simp
  qed
  then show "kept gs m m'" "contents m' ph = contents m (Some h) @ xs"
    "\<exists>s. ph = Some s \<and> wf_slice m' s \<and> (s_arr s = s_arr h \<or> s_arr s = Buf (nbuf m))"
    by blast+
qed

lemma append_working_kept:
  assumes gs: "\<forall>g \<in> set gs. wf_slice m g"
    and ph: "case ph of None \<Rightarrow> True | Some p \<Rightarrow> wf_slice m p \<and> s_arr p \<notin> set (map s_arr gs)"
    and ap: "append_slice m ph xs = (ph', m')"
  shows "kept gs m m'" "contents m' ph' = contents m ph @ xs"
proof -
  have "kept gs m m' \<and> contents m' ph' = contents m ph @ xs"
  proof (cases ph)
    case None
    show ?thesis
    proof (cases "xs = []")
      case True
      then show ?thesis using ap None by (simp add: append_slice_def kept_refl)
    next
      case False
      then have "new_array xs m = (ph', m')" using ap None by (simp add: append_slice_def)
      from new_array_kept(1,2)[OF gs this] show ?thesis using None by simp
    qed
  next
    case (Some p)
    have wf: "wf_slice m p" and nin: "s_arr p \<notin> set (map s_arr gs)" using ph Some by simp_all
    have fr: "\<forall>g \<in> set gs. s_arr g = s_arr p \<longrightarrow> s_off g + s_len g \<le> s_off p + s_len p"
    proof (intro ballI impI)
      fix g assume "g \<in> set gs" "s_arr g = s_arr p"
      then have "s_arr p \<in> set (map s_arr gs)" by (metis imageI list.set_map)
      with nin show "s_off g + s_len g \<le> s_off p + s_len p" by simp
    qed
    from append_slice_kept(1,2)[OF wf gs fr ap[unfolded Some]] show ?thesis using Some by simp
  qed
  then show "kept gs m m'" "contents m' ph' = contents m ph @ xs" by simp_all
qed

lemma entry_parts:
  assumes "contents m (Some h) = b # sib"
  shows "s_len h \<noteq> 0" "cells m (s_arr h) ! s_off h = b" "contents m (Some (tail_slice h)) = sib"
proof -
  let ?X = "drop (s_off h) (cells m (s_arr h))"
  have t: "take (s_len h) ?X = b # sib" using assms by simp
  show "s_len h \<noteq> 0"
  proof
    assume "s_len h = 0"
    with t show False by simp
  qed
  from t have ne: "?X \<noteq> []" by auto
  then have lt: "s_off h < length (cells m (s_arr h))" by simp
  from t ne have "hd ?X = b" by (cases ?X; cases "s_len h") auto
  then show "cells m (s_arr h) ! s_off h = b" using lt by (simp add: hd_drop_conv_nth)
  have "take (s_len h - 1) (drop (Suc (s_off h)) (cells m (s_arr h))) = tl (take (s_len h) ?X)"
    by (simp add: tl_take drop_Suc tl_drop)
  then show "contents m (Some (tail_slice h)) = sib" using t by (simp add: tail_slice_def)
qed

lemma wf_tail_slice:
  assumes "wf_slice m h" "s_len h \<noteq> 0"
  shows "wf_slice m (tail_slice h)" "s_arr (tail_slice h) = s_arr h"
    "s_off (tail_slice h) + s_len (tail_slice h) = s_off h + s_len h"
  using assms by (auto simp: wf_slice_def tail_slice_def split: arr.splits)

lemma separate_fresh:
  assumes "separate m gs ph" "kept gs m m'" "wf_slice m' s" "s_arr s = Buf k" "nbuf m \<le> k"
  shows "separate m' gs (Some s)"
proof -
  have ne: "s_arr g \<noteq> Buf k" if "g \<in> set gs" for g
    using assms(1,5) that by (auto simp: separate_def wf_slice_def split: arr.splits)
  have "s_arr s \<notin> set (map s_arr gs)"
  proof
    assume "s_arr s \<in> set (map s_arr gs)"
    then obtain g where "g \<in> set gs" "s_arr g = s_arr s" by auto
    with ne[of g] assms(4) show False by metis
  qed
  moreover have "\<forall>g \<in> set gs. wf_slice m' g"
    using assms(1,2) wf_kept by (auto simp: separate_def)
  ultimately show ?thesis using assms(1,3) by (simp add: separate_def)
qed

lemma verify_loop_separate:
  assumes "separate m gs ph" "set hs \<subseteq> set gs"
    and "map (\<lambda>h. contents m (Some h)) hs = map (\<lambda>e. bytes_of (encode_entry e)) es"
  shows "\<exists>ph' m'. verify_loop H (map Some hs) ph m = (None, ph', m') \<and>
           contents m' ph' = fold_branch H es (contents m ph) \<and>
           separate m' gs ph' \<and> kept gs m m'"
  using assms
proof (induction hs arbitrary: es ph m)
  case Nil
  then show ?case by (simp add: fold_branch_def kept_refl)
next
  case (Cons h hs)
  from Cons.prems(3) obtain e es' where es: "es = e # es'"
    and ce: "contents m (Some h) = bytes_of (encode_entry e)"
    and rest: "map (\<lambda>h. contents m (Some h)) hs = map (\<lambda>e. bytes_of (encode_entry e)) es'"
    by (cases es) auto
  obtain dir sib where e: "e = (dir, sib)" by (cases e)
  have hg: "h \<in> set gs" and sub: "set hs \<subseteq> set gs" using Cons.prems(2) by simp_all
  have gs: "\<forall>g \<in> set gs. wf_slice m g" and dist: "distinct (map s_arr gs)"
    and php: "case ph of None \<Rightarrow> True | Some p \<Rightarrow> wf_slice m p \<and> s_arr p \<notin> set (map s_arr gs)"
    using Cons.prems(1) by (simp_all add: separate_def)
  have wh: "wf_slice m h" using gs hg by simp
  have step: "\<exists>ph2 m2. verify_loop H (map Some (h # hs)) ph m = verify_loop H (map Some hs) ph2 m2 \<and>
                contents m2 ph2 = combine H (contents m ph) e \<and> separate m2 gs ph2 \<and> kept gs m m2"
  proof (cases dir)
    case LEFT
    then have c: "contents m (Some h) = 0 # sib" using ce e by simp
    note P = entry_parts[OF c]
    note T = wf_tail_slice[OF wh P(1)]
    obtain ph1 m1 where ap: "append_slice m (Some (tail_slice h)) (contents m ph) = (ph1, m1)"
      by (cases "append_slice m (Some (tail_slice h)) (contents m ph)")
    obtain ph2 m2 where na: "new_array (H (contents m1 ph1)) m1 = (ph2, m2)"
      by (cases "new_array (H (contents m1 ph1)) m1")
    have fr: "\<forall>g \<in> set gs. s_arr g = s_arr (tail_slice h) \<longrightarrow>
                s_off g + s_len g \<le> s_off (tail_slice h) + s_len (tail_slice h)"
    proof (intro ballI impI)
      fix g assume g: "g \<in> set gs" and a: "s_arr g = s_arr (tail_slice h)"
      then have "s_arr g = s_arr h" using T(2) by simp
      then have "g = h" using dist g hg by (meson distinct_map inj_onD)
      then show "s_off g + s_len g \<le> s_off (tail_slice h) + s_len (tail_slice h)"
        using T(3) by simp
    qed
    note A = append_slice_kept(1,2)[OF T(1) gs fr ap]
    have gs1: "\<forall>g \<in> set gs. wf_slice m1 g" using gs A(1) wf_kept by blast
    note N = new_array_kept[OF gs1 na]
    have k: "kept gs m m2" using A(1) N(1) by (rule kept_trans)
    obtain s where s: "ph2 = Some s" "wf_slice m2 s" "s_arr s = Buf (nbuf m1)" using N(3) by blast
    have le: "nbuf m \<le> nbuf m1" using A(1) by (simp add: kept_def)
    have sep: "separate m2 gs ph2"
      unfolding s(1) by (rule separate_fresh[OF Cons.prems(1) k s(2,3) le])
    have v: "verify_loop H (map Some (h # hs)) ph m = verify_loop H (map Some hs) ph2 m2"
      using P(1,2) ap na by simp
    have "contents m2 ph2 = combine H (contents m ph) e"
      using N(2) A(2) P(3) e LEFT by simp
    then show ?thesis using v sep k by blast
  next
    case RIGHT
    then have c: "contents m (Some h) = 1 # sib" using ce e by simp
    note P = entry_parts[OF c]
    obtain ph1 m1 where ap: "append_slice m ph (contents m (Some (tail_slice h))) = (ph1, m1)"
      by (cases "append_slice m ph (contents m (Some (tail_slice h)))")
    obtain ph2 m2 where na: "new_array (H (contents m1 ph1)) m1 = (ph2, m2)"
      by (cases "new_array (H (contents m1 ph1)) m1")
    note A = append_working_kept[OF gs php ap]
    have gs1: "\<forall>g \<in> set gs. wf_slice m1 g" using gs A(1) wf_kept by blast
    note N = new_array_kept[OF gs1 na]
    have k: "kept gs m m2" using A(1) N(1) by (rule kept_trans)
    obtain s where s: "ph2 = Some s" "wf_slice m2 s" "s_arr s = Buf (nbuf m1)" using N(3) by blast
    have le: "nbuf m \<le> nbuf m1" using A(1) by (simp add: kept_def)
    have sep: "separate m2 gs ph2"
      unfolding s(1) by (rule separate_fresh[OF Cons.prems(1) k s(2,3) le])
    have v: "verify_loop H (map Some (h # hs)) ph m = verify_loop H (map Some hs) ph2 m2"
      using P(1,2) ap na by simp
    have "contents m2 ph2 = combine H (contents m ph) e"
      using N(2) A(2) P(3) e RIGHT by simp
    then show ?thesis using v sep k by blast
  qed
  then obtain ph2 m2 where s2: "verify_loop H (map Some (h # hs)) ph m = verify_loop H (map Some hs) ph2 m2"
    "contents m2 ph2 = combine H (contents m ph) e" "separate m2 gs ph2" "kept gs m m2"
    by blast
  have rest2: "map (\<lambda>h. contents m2 (Some h)) hs = map (\<lambda>e. bytes_of (encode_entry e)) es'"
  proof -
    have ceq: "contents m2 (Some g) = contents m (Some g)" if "g \<in> set hs" for g
      using contents_kept[OF s2(4)] sub that by blast
    have "map (\<lambda>h. contents m2 (Some h)) hs = map (\<lambda>h. contents m (Some h)) hs"
      by (rule map_cong[OF refl]) (rule ceq)
    then show ?thesis using rest by (simp only:)
  qed
  from Cons.IH[OF s2(3) sub rest2] obtain ph' m' where
    r: "verify_loop H (map Some hs) ph2 m2 = (None, ph', m')"
       "contents m' ph' = fold_branch H es' (contents m2 ph2)"
       "separate m' gs ph'" "kept gs m2 m'"
    by blast
  have "kept gs m m'" using s2(4) r(4) by (rule kept_trans)
  moreover have "contents m' ph' = fold_branch H es (contents m ph)"
    using r(2) s2(2) es by (simp add: fold_branch_def)
  ultimately show ?case using s2(1) r(1,3) by simp
qed

lemma root_pinned: "levels t \<noteq> [] \<Longrightarrow> levels t ! 0 \<noteq> [] \<Longrightarrow> root t = Inr (levels t ! 0 ! 0)"
  by (simp add: root_def index_def)




lemma VerifyProof_separate:
  assumes "levels t \<noteq> []" "levels t ! 0 \<noteq> []" "separate m hs ph"
    and "map (\<lambda>h. contents m (Some h)) hs = map (\<lambda>e. bytes_of (encode_entry e)) es"
  shows "\<exists>q m'. VerifyProof H t m \<lparr>ref_br = map Some hs, ref_h = ph\<rparr> =
           (Inr (contents m (node_slice t (levels t ! 0 ! 0)) = fold_branch H es (contents m ph)),
            \<lparr>ref_br = map Some hs, ref_h = q\<rparr>, m') \<and>
           contents m' q = fold_branch H es (contents m ph) \<and> separate m' hs q \<and> kept hs m m'"
proof -
  from verify_loop_separate[OF assms(3) subset_refl assms(4), of H] obtain ph' m' where
    r: "verify_loop H (map Some hs) ph m = (None, ph', m')"
       "contents m' ph' = fold_branch H es (contents m ph)"
       "separate m' hs ph'" "kept hs m m'"
    by blast
  have "VerifyProof H t m \<lparr>ref_br = map Some hs, ref_h = ph\<rparr> =
           (Inr (contents m (node_slice t (levels t ! 0 ! 0)) = fold_branch H es (contents m ph)),
            \<lparr>ref_br = map Some hs, ref_h = ph'\<rparr>, m')"
    using r(1,2) root_pinned[OF assms(1,2)] root_kept[OF r(4), of t "levels t ! 0 ! 0"]
    by (simp add: VerifyProof_def)
  then show ?thesis using r(2,3,4) by blast
qed

lemma VerifyProof_twice:
  assumes "levels t \<noteq> []" "levels t ! 0 \<noteq> []" "separate m hs ph"
    and "map (\<lambda>h. contents m (Some h)) hs = map (\<lambda>e. bytes_of (encode_entry e)) es"
    and "VerifyProof H t m \<lparr>ref_br = map Some hs, ref_h = ph\<rparr> = (res, p1, m1)"
  shows "res = Inr (contents m (node_slice t (levels t ! 0 ! 0)) = fold_branch H es (contents m ph))"
    "contents m1 (ref_h p1) = fold_branch H es (contents m ph)"
    "fst (VerifyProof H t m1 p1) =
       Inr (contents m (node_slice t (levels t ! 0 ! 0)) =
            fold_branch H es (fold_branch H es (contents m ph)))"
proof -
  from VerifyProof_separate[OF assms(1-4), of H] assms(5) obtain q where
    r: "res = Inr (contents m (node_slice t (levels t ! 0 ! 0)) = fold_branch H es (contents m ph))"
       "p1 = \<lparr>ref_br = map Some hs, ref_h = q\<rparr>"
       "contents m1 q = fold_branch H es (contents m ph)" "separate m1 hs q" "kept hs m m1"
    by auto
  show "res = Inr (contents m (node_slice t (levels t ! 0 ! 0)) = fold_branch H es (contents m ph))"
    by (rule r(1))
  show "contents m1 (ref_h p1) = fold_branch H es (contents m ph)" using r(2,3) by simp
  have c1: "map (\<lambda>h. contents m1 (Some h)) hs = map (\<lambda>e. bytes_of (encode_entry e)) es"
  proof -
    have "map (\<lambda>h. contents m1 (Some h)) hs = map (\<lambda>h. contents m (Some h)) hs"
      by (rule map_cong[OF refl]) (rule contents_kept[OF r(5)])
    then show ?thesis using assms(4) by (simp only:)
  qed
  from VerifyProof_separate[OF assms(1,2) r(4) c1, of H]
  have "fst (VerifyProof H t m1 \<lparr>ref_br = map Some hs, ref_h = q\<rparr>) =
          Inr (contents m1 (node_slice t (levels t ! 0 ! 0)) = fold_branch H es (contents m1 q))"
    by auto
  then show "fst (VerifyProof H t m1 p1) =
       Inr (contents m (node_slice t (levels t ! 0 ! 0)) =
            fold_branch H es (fold_branch H es (contents m ph)))"
    using r(2,3) root_kept[OF r(5), of t "levels t ! 0 ! 0"] by simp
qed

lemma place_kept:
  assumes "\<forall>g \<in> set gs. wf_slice m g" "place spare bs m = (h, m')"
  shows "kept gs m m'" "contents m' (Some h) = bs" "wf_slice m' h" "s_arr h = Buf (nbuf m)"
proof -
  have m': "m' = m\<lparr>cells := (cells m)(Buf (nbuf m) := bs @ replicate (spare (length bs)) 0),
                   nbuf := Suc (nbuf m)\<rparr>"
    and h: "h = \<lparr>s_arr = Buf (nbuf m), s_off = 0, s_len = length bs,
                 s_cap = length bs + spare (length bs)\<rparr>"
    using assms(2) by (auto simp: place_def)
  have "s_arr g \<noteq> Buf (nbuf m)" if "g \<in> set gs" for g
    using assms(1) that by (auto simp: wf_slice_def split: arr.splits)
  then show "kept gs m m'" by (simp add: kept_def m')
  show "contents m' (Some h) = bs" by (simp add: m' h)
  show "wf_slice m' h" by (simp add: m' h wf_slice_def)
  show "s_arr h = Buf (nbuf m)" by (simp add: h)
qed

lemma place_entries_separate:
  assumes "\<forall>g \<in> set gs. wf_slice m g" "distinct (map s_arr gs)"
  shows "\<exists>hs m'. place_entries spare (map Some bss) m = (map Some hs, m') \<and>
           map (\<lambda>h. contents m' (Some h)) hs = bss \<and>
           (\<forall>g \<in> set (gs @ hs). wf_slice m' g) \<and> distinct (map s_arr (gs @ hs)) \<and>
           kept gs m m'"
  using assms
proof (induction bss arbitrary: gs m)
  case Nil
  then show ?case by (simp add: kept_refl)
next
  case (Cons bs bss)
  obtain h m1 where pl: "place spare bs m = (h, m1)" by (cases "place spare bs m")
  note P = place_kept[OF Cons.prems(1) pl]
  have ne: "s_arr g \<noteq> s_arr h" if "g \<in> set gs" for g
    using Cons.prems(1) that P(4) by (auto simp: wf_slice_def split: arr.splits)
  have w1: "\<forall>g \<in> set (gs @ [h]). wf_slice m1 g"
    using Cons.prems(1) P(1,3) wf_kept by auto
  have "s_arr h \<notin> set (map s_arr gs)"
  proof
    assume "s_arr h \<in> set (map s_arr gs)"
    then obtain g where "g \<in> set gs" "s_arr g = s_arr h" by auto
    with ne[of g] show False by metis
  qed
  then have d1: "distinct (map s_arr (gs @ [h]))"
    using Cons.prems(2) by simp
  from Cons.IH[OF w1 d1] obtain hs m' where
    r: "place_entries spare (map Some bss) m1 = (map Some hs, m')"
       "map (\<lambda>h. contents m' (Some h)) hs = bss"
       "\<forall>g \<in> set ((gs @ [h]) @ hs). wf_slice m' g" "distinct (map s_arr ((gs @ [h]) @ hs))"
       "kept (gs @ [h]) m1 m'"
    by blast
  have ch: "contents m' (Some h) = bs" using contents_kept[OF r(5), of h] P(2) by simp
  have k: "kept gs m m'"
    using P(1) kept_mono[OF _ r(5), of gs] by (auto intro: kept_trans)
  have f1: "place_entries spare (map Some (bs # bss)) m = (map Some (h # hs), m')"
    using pl r(1) by simp
  have f2: "map (\<lambda>h. contents m' (Some h)) (h # hs) = bs # bss"
    using ch r(2) by (simp only: list.map)
  have f3: "\<forall>g \<in> set (gs @ h # hs). wf_slice m' g" using r(3) by simp
  have f4: "distinct (map s_arr (gs @ h # hs))" using r(4) by simp
  show ?case
    by (rule exI[of _ "h # hs"], rule exI[of _ m']) (intro conjI f1 f2 f3 f4 k)
qed

lemma encode_entry_Some: "map encode_entry es = map Some (map (\<lambda>e. bytes_of (encode_entry e)) es)"
proof -
  have "encode_entry e = Some (bytes_of (encode_entry e))" for e
    by (cases e rule: encode_entry.cases) simp_all
  then show ?thesis by (simp add: comp_def)
qed

lemma place_proof_separate:
  "\<exists>hs h m'. place_proof spare \<lparr>proof_br = map encode_entry es, proof_h = d\<rparr> m =
       (\<lparr>ref_br = map Some hs, ref_h = Some h\<rparr>, m') \<and>
     separate m' hs (Some h) \<and>
     map (\<lambda>h. contents m' (Some h)) hs = map (\<lambda>e. bytes_of (encode_entry e)) es \<and>
     contents m' (Some h) = d \<and> kept [] m m'"
proof -
  obtain h m1 where pl: "place spare d m = (h, m1)" by (cases "place spare d m")
  have e0: "\<forall>g \<in> set []. wf_slice m g" by simp
  note P = place_kept[OF e0 pl]
  have w1: "\<forall>g \<in> set [h]. wf_slice m1 g" using P(3) by simp
  have d1: "distinct (map s_arr [h])" by simp
  from place_entries_separate[OF w1 d1, of spare "map (\<lambda>e. bytes_of (encode_entry e)) es"]
  obtain hs m' where
    r: "place_entries spare (map Some (map (\<lambda>e. bytes_of (encode_entry e)) es)) m1 = (map Some hs, m')"
       "map (\<lambda>h. contents m' (Some h)) hs = map (\<lambda>e. bytes_of (encode_entry e)) es"
       "\<forall>g \<in> set ([h] @ hs). wf_slice m' g" "distinct (map s_arr ([h] @ hs))"
       "kept [h] m1 m'"
    by blast
  have pp: "place_proof spare \<lparr>proof_br = map encode_entry es, proof_h = d\<rparr> m =
       (\<lparr>ref_br = map Some hs, ref_h = Some h\<rparr>, m')"
    using pl r(1) by (simp add: place_proof_def encode_entry_Some)
  have sep: "separate m' hs (Some h)" using r(3,4) by (auto simp: separate_def)
  have ch: "contents m' (Some h) = d" using contents_kept[OF r(5), of h] P(2) by simp
  have k: "kept [] m m'"
    using P(1) kept_mono[OF _ r(5), of "[]"] by (auto intro: kept_trans)
  show ?thesis using pp sep r(2) ch k by blast
qed

lemma tree_memory_root:
  "contents (tree_memory t bufs n) (node_slice t r) = bytes_of (node_h (heap t r))"
  by (simp add: tree_memory_def node_slice_def split: option.splits)

section \<open>The height computed by calcTreeHeight\<close>

lemma Log2_loop_bounds:
  "2 ^ k \<le> j \<Longrightarrow> j < 2 ^ Suc k \<Longrightarrow> Log2_loop j l = l + k"
proof (induction k arbitrary: j l)
  case 0
  then have "j = 1" by simp
  then show ?case by (subst Log2_loop.simps) (simp add: drop_bit_eq_div)
next
  case (Suc k)
  have a: "2 ^ k \<le> j div 2" using Suc.prems(1) by simp
  have b: "j div 2 < 2 ^ Suc k" using Suc.prems(2) by simp
  have "j div 2 \<noteq> 0" using a by (metis not_less_eq_eq le_zero_eq power_not_zero zero_neq_numeral)
  then show ?case
    using Suc.IH[OF a b, of "l + 1"] by (subst Log2_loop.simps) (simp add: drop_bit_eq_div Let_def)
qed

lemma PowOf2_double: "0 < m \<Longrightarrow> PowOf2 (2 * m) = PowOf2 m"
proof -
  assume m: "0 < m"
  have d: "(2 * m - Suc 0) div 2 = m - Suc 0" using m by arith
  have "(2 * m) AND (2 * m - 1) = 2 * (m AND (m - 1))"
    using m by (subst and_nat_unfold) (simp add: d)
  then show ?thesis using m by (simp add: PowOf2_def)
qed

lemma PowOf2_odd: "PowOf2 (2 * m + 1) = (m = 0)"
proof -
  have "(2 * m + 1) AND (2 * m) = 2 * m"
    by (subst and_nat_unfold) simp
  then show ?thesis by (simp add: PowOf2_def)
qed

lemma PowOf2_power: "PowOf2 (2 ^ k)"
proof (induction k)
  case 0
  show ?case by (simp add: PowOf2_def)
next
  case (Suc k)
  have "PowOf2 (2 * 2 ^ k)" using Suc by (subst PowOf2_double) simp_all
  then show ?case by simp
qed

lemma PowOf2_between: "2 ^ k < n \<Longrightarrow> n < 2 ^ Suc k \<Longrightarrow> \<not> PowOf2 n"
proof (induction k arbitrary: n)
  case 0
  then show ?case by simp
next
  case (Suc k)
  show ?case
  proof (cases "even n")
    case True
    then obtain m where n: "n = 2 * m" by (elim evenE)
    with Suc.prems have "2 ^ k < m" "m < 2 ^ Suc k" by simp_all
    with Suc.IH[of m] have "\<not> PowOf2 m" by simp
    moreover have "0 < m" using \<open>2 ^ k < m\<close> by simp
    ultimately show ?thesis by (simp add: n PowOf2_double)
  next
    case False
    then obtain m where n: "n = 2 * m + 1" by (elim oddE)
    with Suc.prems have "m \<noteq> 0" by auto
    then show ?thesis using PowOf2_odd[of m] by (simp add: n)
  qed
qed

lemma Log2_power: "Log2 (2 ^ k) = k"
  using Log2_loop_bounds[of k "2 ^ k" 0] by (simp add: Log2_def PowOf2_power)

lemma Log2_between: "2 ^ k < n \<Longrightarrow> n < 2 ^ Suc k \<Longrightarrow> Log2 n = Suc k"
  using Log2_loop_bounds[of k n 0] PowOf2_between[of k n] by (simp add: Log2_def)

lemma Log2_eq: "2 ^ k < n \<Longrightarrow> n \<le> 2 ^ Suc k \<Longrightarrow> Log2 n = Suc k"
  using Log2_between[of k n] Log2_power[of "Suc k"] by (cases "n = 2 ^ Suc k") auto

lemma ex_power_bracket: "2 \<le> (n::nat) \<Longrightarrow> \<exists>k. 2 ^ k < n \<and> n \<le> 2 ^ Suc k"
proof (induction n rule: less_induct)
  case (less n)
  show ?case
  proof (cases "n = 2")
    case True
    then show ?thesis by (intro exI[of _ 0]) simp
  next
    case False
    with less.prems have n3: "3 \<le> n" by simp
    let ?m = "half_up n"
    have m: "2 \<le> ?m" "?m < n" using n3 unfolding half_up_def by presburger+
    from less.IH[OF m(2) m(1)] obtain k where k: "2 ^ k < ?m" "?m \<le> 2 ^ Suc k" by blast
    have hh: "n \<le> 2 * ?m" "2 * ?m \<le> n + 1" unfolding half_up_def by presburger+
    have "2 ^ Suc k < n" using k(1) hh(2) by simp
    moreover have "n \<le> 2 ^ Suc (Suc k)" using k(2) hh(1) by simp
    ultimately show ?thesis by blast
  qed
qed

lemma Log2_ceiling: "2 \<le> n \<Longrightarrow> int (Log2 n) = \<lceil>log 2 (real n)\<rceil>"
proof -
  assume "2 \<le> n"
  then obtain k where k: "2 ^ k < n" "n \<le> 2 ^ Suc k" using ex_power_bracket by blast
  have "\<lceil>log 2 (real n)\<rceil> = int k + 1"
    using ceiling_log_nat_eq_if[of 2 k n] k by simp
  then show ?thesis using Log2_eq[OF k] by simp
qed

section \<open>The walk of hashing over a linked subtree\<close>

lemma top_in_refs: "top s \<in> set (refs s)"
  by (cases s) simp_all

lemma fill_other: "a \<notin> set (refs s) \<Longrightarrow> fill H hp s a = hp a"
  by (induction s arbitrary: hp) (simp_all add: Let_def)

lemma fill_fields:
  "node_left (fill H hp s a) = node_left (hp a)"
  "node_right (fill H hp s a) = node_right (hp a)"
  "node_parent (fill H hp s a) = node_parent (hp a)"
  by (induction s arbitrary: hp) (auto simp: Let_def)

lemma linked_cong: "(\<And>a. a \<in> set (refs s) \<Longrightarrow> hp' a = hp a) \<Longrightarrow> linked hp' s = linked hp s"
proof (induction s)
  case (Lf a d)
  then show ?case by simp
next
  case (Nd1 a l)
  have "hp' a = hp a" "hp' (top l) = hp (top l)" using Nd1.prems top_in_refs[of l] by simp_all
  moreover have "linked hp' l = linked hp l" using Nd1 by simp
  ultimately show ?case by simp
next
  case (Nd2 a l r)
  have "hp' a = hp a" "hp' (top l) = hp (top l)" "hp' (top r) = hp (top r)"
    using Nd2.prems top_in_refs[of l] top_in_refs[of r] by simp_all
  moreover have "linked hp' l = linked hp l" "linked hp' r = linked hp r" using Nd2 by simp_all
  ultimately show ?case by simp
qed

lemma fill_top: "linked hp s \<Longrightarrow> node_h (fill H hp s (top s)) = Some (dig H s)"
  by (cases s) (simp_all add: Let_def)

lemma linked_fill_disjoint:
  "linked hp s \<Longrightarrow> set (refs s) \<inter> set (refs s') = {} \<Longrightarrow> linked (fill H hp s') s"
  using linked_cong[of s "fill H hp s'" hp] fill_other[of _ s' H hp] by blast

lemma hl_done:
  "node_h (hp a) \<noteq> None \<Longrightarrow>
   hashing_loop H nd (Some a) hp =
     (if a = nd then Some (Inr (node_h (hp a)), hp)
      else hashing_loop H nd (node_parent (hp a)) hp)"
  by (subst hashing_loop.simps) simp

lemma hl_left:
  "node_h (hp a) = None \<Longrightarrow> node_left (hp a) = Some l \<Longrightarrow> node_h (hp l) = None \<Longrightarrow>
   hashing_loop H nd (Some a) hp = hashing_loop H nd (Some l) hp"
  by (subst hashing_loop.simps) (simp add: IsLeaf_def)

lemma hl_right:
  "node_h (hp a) = None \<Longrightarrow> node_left (hp a) = Some l \<Longrightarrow> node_h (hp l) = Some dl \<Longrightarrow>
   node_right (hp a) = Some r \<Longrightarrow> node_h (hp r) = None \<Longrightarrow>
   hashing_loop H nd (Some a) hp = hashing_loop H nd (Some r) hp"
  by (subst hashing_loop.simps) (simp add: IsLeaf_def)

lemma hl_sum1:
  "node_h (hp a) = None \<Longrightarrow> node_left (hp a) = Some l \<Longrightarrow> node_h (hp l) = Some dl \<Longrightarrow>
   node_right (hp a) = None \<Longrightarrow>
   hashing_loop H nd (Some a) hp =
     (if a = nd then Some (Inr (Some (H dl)), hp(a := (hp a)\<lparr>node_h := Some (H dl)\<rparr>))
      else hashing_loop H nd (node_parent (hp a)) (hp(a := (hp a)\<lparr>node_h := Some (H dl)\<rparr>)))"
  by (subst hashing_loop.simps) (simp add: IsLeaf_def hash_sum_def Let_def)

lemma hl_sum2:
  "node_h (hp a) = None \<Longrightarrow> node_left (hp a) = Some l \<Longrightarrow> node_h (hp l) = Some dl \<Longrightarrow>
   node_right (hp a) = Some r \<Longrightarrow> node_h (hp r) = Some dr \<Longrightarrow>
   hashing_loop H nd (Some a) hp =
     (if a = nd then Some (Inr (Some (H (dl @ dr))), hp(a := (hp a)\<lparr>node_h := Some (H (dl @ dr))\<rparr>))
      else hashing_loop H nd (node_parent (hp a)) (hp(a := (hp a)\<lparr>node_h := Some (H (dl @ dr))\<rparr>)))"
  by (subst hashing_loop.simps) (simp add: IsLeaf_def hash_sum_def Let_def)


lemma linked_top_h:
  "linked hp s \<Longrightarrow> node_h (hp (top s)) = (case s of Lf a d \<Rightarrow> Some d | _ \<Rightarrow> None)"
  by (cases s) simp_all

lemma fill_leaf: "node_h (hp (top s)) \<noteq> None \<Longrightarrow> linked hp s \<Longrightarrow> fill H hp s = hp"
  by (cases s) simp_all

text \<open>Returning from a child: the walk at the parent resumes in the filled heap.\<close>

lemma hashing_child:
  assumes IH: "hashing_loop H nd (Some (top c)) hp =
                 (if top c = nd then Some (Inr (Some (dig H c)), fill H hp c)
                  else hashing_loop H nd (node_parent (hp (top c))) (fill H hp c))"
    and c: "linked hp c" "nd \<notin> set (refs c)" "node_parent (hp (top c)) = Some a"
    and go: "node_h (hp (top c)) = None \<Longrightarrow>
               hashing_loop H nd (Some a) hp = hashing_loop H nd (Some (top c)) hp"
  shows "hashing_loop H nd (Some a) hp = hashing_loop H nd (Some a) (fill H hp c)"
proof (cases "node_h (hp (top c)) = None")
  case True
  have "top c \<noteq> nd" using c(2) top_in_refs[of c] by auto
  then show ?thesis using go[OF True] IH c(3) by simp
next
  case False
  then show ?thesis using fill_leaf[OF _ c(1)] by simp
qed

lemma hashing_subtree:
  "linked hp s \<Longrightarrow> distinct (refs s) \<Longrightarrow> (top s \<noteq> nd \<Longrightarrow> nd \<notin> set (refs s)) \<Longrightarrow>
   hashing_loop H nd (Some (top s)) hp =
     (if top s = nd then Some (Inr (Some (dig H s)), fill H hp s)
      else hashing_loop H nd (node_parent (hp (top s))) (fill H hp s))"
proof (induction s arbitrary: hp)
  case (Lf a d)
  then show ?case by (auto simp: hl_done)
next
  case (Nd1 a l)
  let ?hp1 = "fill H hp l"
  have lk: "linked hp l" and al: "a \<notin> set (refs l)" and dl: "distinct (refs l)"
    using Nd1.prems by simp_all
  have ndl: "nd \<notin> set (refs l)" using Nd1.prems(3) al by (cases "a = nd") auto
  have ha: "node_h (hp a) = None" "node_left (hp a) = Some (top l)" "node_right (hp a) = None"
    "node_parent (hp (top l)) = Some a"
    using Nd1.prems(1) by simp_all
  have IHl: "hashing_loop H nd (Some (top l)) hp =
                 (if top l = nd then Some (Inr (Some (dig H l)), ?hp1)
                  else hashing_loop H nd (node_parent (hp (top l))) ?hp1)"
    using Nd1.IH[OF lk dl] ndl by blast
  have A: "hashing_loop H nd (Some a) hp = hashing_loop H nd (Some a) ?hp1"
    by (rule hashing_child[OF IHl lk ndl ha(4)]) (rule hl_left[where hp=hp and a=a, OF ha(1) ha(2)])
  have h1: "node_h (?hp1 a) = None" "node_left (?hp1 a) = Some (top l)"
    "node_right (?hp1 a) = None" "node_parent (?hp1 a) = node_parent (hp a)"
    using ha al by (simp_all add: fill_other fill_fields)
  have h1l: "node_h (?hp1 (top l)) = Some (dig H l)" by (rule fill_top[OF lk])
  have "hashing_loop H nd (Some a) hp = hashing_loop H nd (Some a) ?hp1" by (rule A)
  also note hl_sum1[where hp="?hp1" and a=a, OF h1(1) h1(2) h1l h1(3)]
  finally show ?case by (simp add: h1(4) Let_def fun_upd_def)
next
  case (Nd2 a l r)
  let ?hp1 = "fill H hp l"
  let ?hp2 = "fill H ?hp1 r"
  have lk: "linked hp l" "linked hp r"
    and al: "a \<notin> set (refs l)" "a \<notin> set (refs r)"
    and dl: "distinct (refs l)" "distinct (refs r)"
    and dj: "set (refs l) \<inter> set (refs r) = {}"
    using Nd2.prems by simp_all
  have ndl: "nd \<notin> set (refs l)" "nd \<notin> set (refs r)"
    using Nd2.prems(3) al by (cases "a = nd"; auto)+
  have ha: "node_h (hp a) = None" "node_left (hp a) = Some (top l)"
    "node_right (hp a) = Some (top r)"
    "node_parent (hp (top l)) = Some a" "node_parent (hp (top r)) = Some a"
    using Nd2.prems(1) by simp_all
  have IHl: "hashing_loop H nd (Some (top l)) hp =
                 (if top l = nd then Some (Inr (Some (dig H l)), ?hp1)
                  else hashing_loop H nd (node_parent (hp (top l))) ?hp1)"
    using Nd2.IH(1)[OF lk(1) dl(1)] ndl(1) by blast
  have A: "hashing_loop H nd (Some a) hp = hashing_loop H nd (Some a) ?hp1"
    by (rule hashing_child[OF IHl lk(1) ndl(1) ha(4)]) (rule hl_left[where hp=hp and a=a, OF ha(1) ha(2)])
  have lk1: "linked ?hp1 r"
    using linked_fill_disjoint[OF lk(2), of l H] dj by (simp add: Int_commute)
  have h1: "node_h (?hp1 a) = None" "node_left (?hp1 a) = Some (top l)"
    "node_right (?hp1 a) = Some (top r)" "node_parent (?hp1 (top r)) = Some a"
    using ha al by (simp_all add: fill_other fill_fields)
  have h1l: "node_h (?hp1 (top l)) = Some (dig H l)" by (rule fill_top[OF lk(1)])
  have IHr: "hashing_loop H nd (Some (top r)) ?hp1 =
                 (if top r = nd then Some (Inr (Some (dig H r)), ?hp2)
                  else hashing_loop H nd (node_parent (?hp1 (top r))) ?hp2)"
    using Nd2.IH(2)[OF lk1 dl(2)] ndl(2) by blast
  have B: "hashing_loop H nd (Some a) ?hp1 = hashing_loop H nd (Some a) ?hp2"
    by (rule hashing_child[OF IHr lk1 ndl(2) h1(4)]) (rule hl_right[where hp="?hp1" and a=a, OF h1(1) h1(2) h1l h1(3)])
  have tl: "top l \<notin> set (refs r)" using dj top_in_refs[of l] by auto
  have h2: "node_h (?hp2 a) = None" "node_left (?hp2 a) = Some (top l)"
    "node_right (?hp2 a) = Some (top r)" "node_parent (?hp2 a) = node_parent (hp a)"
    using h1 al by (simp_all add: fill_other fill_fields)
  have h2l: "node_h (?hp2 (top l)) = Some (dig H l)" using h1l tl by (simp add: fill_other)
  have h2r: "node_h (?hp2 (top r)) = Some (dig H r)" by (rule fill_top[OF lk1])
  have "hashing_loop H nd (Some a) hp = hashing_loop H nd (Some a) ?hp1" by (rule A)
  also note B
  also note hl_sum2[where hp="?hp2" and a=a, OF h2(1) h2(2) h2l h2(3) h2r]
  finally show ?case by (simp add: h2(4) Let_def fun_upd_def)
qed

section \<open>The levels built by Construct\<close>

lemma row_0: "row 0 ss = ss"
  by (induction ss) (simp_all add: row_def)

lemma row_pair_shapes: "row (Suc m) (pair_shapes f ss) = row m ss"
  by (induction f ss rule: pair_shapes.induct) (simp_all add: row_def)

lemma length_pair_shapes: "length (pair_shapes f ss) = half_up (length ss)"
  by (induction f ss rule: pair_shapes.induct) (simp_all add: half_up_def)

lemma length_pair_up: "length (pair_up H ds) = half_up (length ds)"
  by (induction H ds rule: pair_up.induct) (simp_all add: half_up_def)

lemma dig_pair_shapes: "map (dig H) (pair_shapes f ss) = pair_up H (map (dig H) ss)"
  by (induction f ss rule: pair_shapes.induct) simp_all

lemma dig_leaf_shapes: "map (dig H) (leaf_shapes f ds) = ds"
  by (induction ds arbitrary: f) simp_all

lemma length_leaf_shapes: "length (leaf_shapes f ds) = length ds"
  by (induction ds arbitrary: f) simp_all

lemma good_Nil: "good t []"
  by (simp add: good_def)

lemma good_levels_update: "good (t\<lparr>levels := ls\<rparr>) ss = good t ss"
  by (simp add: good_def)

text \<open>A store that agrees below the allocation pointer keeps the shapes linked.\<close>

lemma good_linked_agree:
  assumes "good t ss" and "s \<in> set ss" and "\<And>a. a \<in> set (refs s) \<Longrightarrow> hp' a = heap t a"
  shows "linked hp' s"
  using assms linked_cong[of s hp' "heap t"] by (auto simp: good_def)

lemma make_leaves_shapes:
  "good t done \<Longrightarrow>
   \<exists>t'. make_leaves H vals lvl t = (lvl @ map top (leaf_shapes (fresh t) (map H vals)), t') \<and>
        good t' (done @ leaf_shapes (fresh t) (map H vals)) \<and> levels t' = levels t"
proof (induction vals arbitrary: lvl t "done")
  case Nil
  then show ?case by simp
next
  case (Cons v vals)
  let ?f = "fresh t"
  let ?t1 = "t\<lparr>heap := (heap t)(?f := empty_Node\<lparr>node_h := Some (H v)\<rparr>), fresh := Suc ?f\<rparr>"
  have g1: "good ?t1 (done @ [Lf ?f (H v)])"
    unfolding good_def
  proof (intro conjI ballI)
    fix s assume s: "s \<in> set (done @ [Lf ?f (H v)])"
    show "linked (heap ?t1) s"
    proof (cases "s \<in> set done")
      case True
      have "\<And>a. a \<in> set (refs s) \<Longrightarrow> a \<noteq> ?f" using Cons.prems True by (auto simp: good_def)
      then show ?thesis using good_linked_agree[OF Cons.prems True, of "heap ?t1"] by simp
    next
      case False
      with s have "s = Lf ?f (H v)" by simp
      then show ?thesis by (simp add: empty_Node_def)
    qed
  next
    show "distinct (concat (map refs (done @ [Lf ?f (H v)])))"
      using Cons.prems by (auto simp: good_def)
  next
    fix s a assume "s \<in> set (done @ [Lf ?f (H v)])" "a \<in> set (refs s)"
    then show "a < fresh ?t1" using Cons.prems by (auto simp: good_def less_Suc_eq)
  qed
  from Cons.IH[OF g1, of "lvl @ [?f]"] obtain t' where
    t': "make_leaves H vals (lvl @ [?f]) ?t1 =
           ((lvl @ [?f]) @ map top (leaf_shapes (fresh ?t1) (map H vals)), t')"
      "good t' ((done @ [Lf ?f (H v)]) @ leaf_shapes (fresh ?t1) (map H vals))"
      "levels t' = levels ?t1"
    by blast
  show ?case
    using t' by (simp add: alloc_def hash_sum_def)
qed


lemma linked_top_parent:
  assumes "linked hp s" and "distinct (refs s)"
    and same: "\<And>a. a \<in> set (refs s) \<Longrightarrow> a \<noteq> top s \<Longrightarrow> hp' a = hp a"
    and flds: "node_h (hp' (top s)) = node_h (hp (top s))"
      "node_left (hp' (top s)) = node_left (hp (top s))"
      "node_right (hp' (top s)) = node_right (hp (top s))"
  shows "linked hp' s"
proof (cases s)
  case (Lf a d)
  with assms show ?thesis by simp
next
  case (Nd1 a l)
  have "\<And>b. b \<in> set (refs l) \<Longrightarrow> hp' b = hp b" using same assms(2) Nd1 by auto
  then have "linked hp' l = linked hp l" "hp' (top l) = hp (top l)"
    using linked_cong[of l hp' hp] top_in_refs[of l] by simp_all
  then show ?thesis using assms(1) flds Nd1 by simp
next
  case (Nd2 a l r)
  have "\<And>b. b \<in> set (refs l) \<Longrightarrow> hp' b = hp b" "\<And>b. b \<in> set (refs r) \<Longrightarrow> hp' b = hp b"
    using same assms(2) Nd2 by auto
  then have "linked hp' l = linked hp l" "hp' (top l) = hp (top l)"
    "linked hp' r = linked hp r" "hp' (top r) = hp (top r)"
    using linked_cong[of l hp' hp] linked_cong[of r hp' hp] top_in_refs[of l] top_in_refs[of r]
    by simp_all
  then show ?thesis using assms(1) flds Nd2 by simp
qed

lemma link2_facts:
  assumes "c1 \<noteq> fresh t" "c2 \<noteq> fresh t" "c1 \<noteq> c2"
  shows "node_h (heap (link2 c1 c2 t) (fresh t)) = None"
    "node_left (heap (link2 c1 c2 t) (fresh t)) = Some c1"
    "node_right (heap (link2 c1 c2 t) (fresh t)) = Some c2"
    "node_parent (heap (link2 c1 c2 t) c1) = Some (fresh t)"
    "node_parent (heap (link2 c1 c2 t) c2) = Some (fresh t)"
    "\<And>a. a \<noteq> fresh t \<Longrightarrow> node_h (heap (link2 c1 c2 t) a) = node_h (heap t a)"
    "\<And>a. a \<noteq> fresh t \<Longrightarrow> node_left (heap (link2 c1 c2 t) a) = node_left (heap t a)"
    "\<And>a. a \<noteq> fresh t \<Longrightarrow> node_right (heap (link2 c1 c2 t) a) = node_right (heap t a)"
    "\<And>a. a \<noteq> fresh t \<Longrightarrow> a \<noteq> c1 \<Longrightarrow> a \<noteq> c2 \<Longrightarrow> heap (link2 c1 c2 t) a = heap t a"
    "fresh (link2 c1 c2 t) = Suc (fresh t)"
    "levels (link2 c1 c2 t) = levels t"
  using assms
  by (simp_all add: link2_def set_parent_def set_left_def set_right_def alloc_def empty_Node_def)

lemma link1_facts:
  assumes "c1 \<noteq> fresh t"
  shows "node_h (heap (link1 c1 t) (fresh t)) = None"
    "node_left (heap (link1 c1 t) (fresh t)) = Some c1"
    "node_right (heap (link1 c1 t) (fresh t)) = None"
    "node_parent (heap (link1 c1 t) c1) = Some (fresh t)"
    "\<And>a. a \<noteq> fresh t \<Longrightarrow> node_h (heap (link1 c1 t) a) = node_h (heap t a)"
    "\<And>a. a \<noteq> fresh t \<Longrightarrow> node_left (heap (link1 c1 t) a) = node_left (heap t a)"
    "\<And>a. a \<noteq> fresh t \<Longrightarrow> node_right (heap (link1 c1 t) a) = node_right (heap t a)"
    "\<And>a. a \<noteq> fresh t \<Longrightarrow> a \<noteq> c1 \<Longrightarrow> heap (link1 c1 t) a = heap t a"
    "fresh (link1 c1 t) = Suc (fresh t)"
    "levels (link1 c1 t) = levels t"
  using assms
  by (simp_all add: link1_def set_parent_def set_left_def set_right_def alloc_def empty_Node_def)

lemma good_link2:
  assumes g: "good t (done @ s1 # s2 # rest)"
  shows "good (link2 (top s1) (top s2) t) ((done @ [Nd2 (fresh t) s1 s2]) @ rest)"
proof -
  let ?f = "fresh t"
  let ?t' = "link2 (top s1) (top s2) t"
  have lt: "\<And>s a. s \<in> set (done @ s1 # s2 # rest) \<Longrightarrow> a \<in> set (refs s) \<Longrightarrow> a < ?f"
    using g by (auto simp: good_def)
  have d: "distinct (concat (map refs (done @ s1 # s2 # rest)))" using g by (simp add: good_def)
  have lk: "\<And>s. s \<in> set (done @ s1 # s2 # rest) \<Longrightarrow> linked (heap t) s"
    using g by (auto simp: good_def)
  have t1: "top s1 \<in> set (refs s1)" "top s2 \<in> set (refs s2)" by (rule top_in_refs)+
  have ne: "top s1 \<noteq> ?f" "top s2 \<noteq> ?f" "top s1 \<noteq> top s2"
    using lt[of s1 "top s1"] lt[of s2 "top s2"] t1 d by auto
  note F = link2_facts[OF ne]
  have d1: "distinct (refs s1)" "distinct (refs s2)" "set (refs s1) \<inter> set (refs s2) = {}"
    using d by auto
  have nf: "?f \<notin> set (refs s1)" "?f \<notin> set (refs s2)"
    using lt[of s1 ?f] lt[of s2 ?f] by auto
  have l1: "linked (heap ?t') s1"
  proof (rule linked_top_parent[OF lk d1(1)])
    fix a assume "a \<in> set (refs s1)" "a \<noteq> top s1"
    then show "heap ?t' a = heap t a" using F(9)[of a] nf(1) d1(3) t1(2) by auto
  qed (use F(6,7,8) ne in simp_all)
  have l2: "linked (heap ?t') s2"
  proof (rule linked_top_parent[OF lk d1(2)])
    fix a assume "a \<in> set (refs s2)" "a \<noteq> top s2"
    then show "heap ?t' a = heap t a" using F(9)[of a] nf(2) d1(3) t1(1) by auto
  qed (use F(6,7,8) ne in simp_all)
  have new: "linked (heap ?t') (Nd2 ?f s1 s2)" using F(1-5) l1 l2 by simp
  have old: "linked (heap ?t') s" if "s \<in> set done \<union> set rest" for s
  proof -
    have s: "s \<in> set (done @ s1 # s2 # rest)" using that by auto
    have "set (refs s) \<inter> set (refs s1) = {}" "set (refs s) \<inter> set (refs s2) = {}"
      using that d by auto
    then have "\<And>a. a \<in> set (refs s) \<Longrightarrow> heap ?t' a = heap t a"
      using F(9) lt[OF s] t1 by (metis disjoint_iff less_irrefl)
    then show ?thesis using linked_cong[of s "heap ?t'" "heap t"] lk[OF s] by blast
  qed
  have dnew: "distinct (concat (map refs ((done @ [Nd2 ?f s1 s2]) @ rest)))"
    using d lt by (auto simp: less_irrefl)
  show ?thesis
    unfolding good_def
  proof (intro conjI ballI)
    fix s assume "s \<in> set ((done @ [Nd2 ?f s1 s2]) @ rest)"
    then show "linked (heap ?t') s" using new old by auto
  next
    show "distinct (concat (map refs ((done @ [Nd2 ?f s1 s2]) @ rest)))" by (rule dnew)
  next
    fix s a assume sa: "s \<in> set ((done @ [Nd2 ?f s1 s2]) @ rest)" "a \<in> set (refs s)"
    have "a < ?f \<or> a = ?f"
    proof (cases "s = Nd2 ?f s1 s2")
      case True
      then show ?thesis using sa(2) lt[of s1 a] lt[of s2 a] by auto
    next
      case False
      then have "s \<in> set (done @ s1 # s2 # rest)" using sa(1) by auto
      then show ?thesis using lt sa(2) by blast
    qed
    then show "a < fresh ?t'" using F(10) by auto
  qed
qed


lemma good_link1:
  assumes g: "good t (done @ [s1])"
  shows "good (link1 (top s1) t) (done @ [Nd1 (fresh t) s1])"
proof -
  let ?f = "fresh t"
  let ?t' = "link1 (top s1) t"
  have lt: "\<And>s a. s \<in> set (done @ [s1]) \<Longrightarrow> a \<in> set (refs s) \<Longrightarrow> a < ?f"
    using g by (auto simp: good_def)
  have d: "distinct (concat (map refs (done @ [s1])))" using g by (simp add: good_def)
  have lk: "\<And>s. s \<in> set (done @ [s1]) \<Longrightarrow> linked (heap t) s"
    using g by (auto simp: good_def)
  have t1: "top s1 \<in> set (refs s1)" by (rule top_in_refs)
  have ne: "top s1 \<noteq> ?f" using lt[of s1 "top s1"] t1 by auto
  note F = link1_facts[OF ne]
  have d1: "distinct (refs s1)" using d by auto
  have nf: "?f \<notin> set (refs s1)" using lt[of s1 ?f] by auto
  have l1: "linked (heap ?t') s1"
  proof (rule linked_top_parent[OF lk d1(1)])
    fix a assume "a \<in> set (refs s1)" "a \<noteq> top s1"
    then show "heap ?t' a = heap t a" using F(8)[of a] nf(1) by auto
  qed (use F(5,6,7) ne in simp_all)
  have new: "linked (heap ?t') (Nd1 ?f s1)" using F(1-4) l1 by simp
  have old: "linked (heap ?t') s" if "s \<in> set done" for s
  proof -
    have s: "s \<in> set (done @ [s1])" using that by auto
    have "set (refs s) \<inter> set (refs s1) = {}" using that d by auto
    then have "\<And>a. a \<in> set (refs s) \<Longrightarrow> heap ?t' a = heap t a"
      using F(8) lt[OF s] t1 by (metis disjoint_iff less_irrefl)
    then show ?thesis using linked_cong[of s "heap ?t'" "heap t"] lk[OF s] by blast
  qed
  have dnew: "distinct (concat (map refs (done @ [Nd1 ?f s1])))"
    using d lt by (auto simp: less_irrefl)
  show ?thesis
    unfolding good_def
  proof (intro conjI ballI)
    fix s assume "s \<in> set (done @ [Nd1 ?f s1])"
    then show "linked (heap ?t') s" using new old by auto
  next
    show "distinct (concat (map refs (done @ [Nd1 ?f s1])))" by (rule dnew)
  next
    fix s a assume sa: "s \<in> set (done @ [Nd1 ?f s1])" "a \<in> set (refs s)"
    have "a < ?f \<or> a = ?f"
    proof (cases "s = Nd1 ?f s1")
      case True
      then show ?thesis using sa(2) lt[of s1 a] by auto
    next
      case False
      then have "s \<in> set (done @ [s1])" using sa(1) by auto
      then show ?thesis using lt sa(2) by blast
    qed
    then show "a < fresh ?t'" using F(9) by auto
  qed
qed


lemma index_nat: "i < length xs \<Longrightarrow> index xs (int i) = Inr (xs ! i)"
  by (simp add: index_def)

lemma index_double: "2 * i < length xs \<Longrightarrow> index xs (2 * int i) = Inr (xs ! (2 * i))"
  using index_nat[of "2 * i" xs] by simp

lemma index_double1:
  "Suc (2 * i) < length xs \<Longrightarrow> index xs (1 + 2 * int i) = Inr (xs ! Suc (2 * i))"
  using index_nat[of "Suc (2 * i)" xs] by simp

lemma loop_stop:
  "\<not> i < sz \<Longrightarrow> constructLevel_loop children sz i parents t = Inr (parents, t)"
  by (subst constructLevel_loop.simps) simp

lemma loop_step1:
  "i < sz \<Longrightarrow> 2 * i < length children \<Longrightarrow> \<not> 2 * i + 1 < length children \<Longrightarrow>
   constructLevel_loop children sz i parents t =
     constructLevel_loop children sz (i + 1) (parents @ [fresh t]) (link1 (children ! (2 * i)) t)"
  by (subst constructLevel_loop.simps) (simp add: alloc_def index_nat index_double index_double1 link1_def Let_def)

lemma loop_step2:
  "i < sz \<Longrightarrow> 2 * i + 1 < length children \<Longrightarrow>
   constructLevel_loop children sz i parents t =
     constructLevel_loop children sz (i + 1) (parents @ [fresh t])
       (link2 (children ! (2 * i)) (children ! (2 * i + 1)) t)"
  by (subst constructLevel_loop.simps) (simp add: alloc_def index_nat index_double index_double1 link2_def Let_def)

lemma constructLevel_loop_shapes:
  assumes "children = map top (pre @ rest)" "length pre = 2 * i"
    "sz = half_up (length children)" "good t (done @ rest)" "parents = map top done"
  shows "\<exists>t'. constructLevel_loop children sz i parents t =
                 Inr (map top (done @ pair_shapes (fresh t) rest), t') \<and>
              good t' (done @ pair_shapes (fresh t) rest) \<and> levels t' = levels t"
  using assms
proof (induction rest arbitrary: t pre i "done" parents rule: induct_list012)
  case 1
  then have "\<not> i < sz" by (simp add: half_up_def)
  then show ?case using 1 by (simp add: loop_stop)
next
  case (2 s)
  have len: "length children = 2 * i + 1" using 2 by simp
  have sz: "sz = i + 1" using 2(3) len by (simp add: half_up_def)
  have c: "children ! (2 * i) = top s" using 2(1,2) by (simp add: nth_append)
  have "constructLevel_loop children sz i parents t =
          constructLevel_loop children sz (i + 1) (parents @ [fresh t]) (link1 (top s) t)"
    using loop_step1[of i sz children parents t] sz len c by simp
  also have "\<dots> = Inr (parents @ [fresh t], link1 (top s) t)"
    using sz by (simp add: loop_stop)
  finally show ?case
    using good_link1[OF 2(4)] 2(5) link1_facts(10)[of "top s" t] good_link1[OF 2(4)]
    by (simp add: link1_def set_parent_def set_left_def alloc_def)
next
  case (3 s1 s2 ss)
  let ?t' = "link2 (top s1) (top s2) t"
  have len: "length children = 2 * i + 2 + length ss" using 3 by simp
  have sz: "i < sz" using 3(5) len by (simp add: half_up_def)
  have c: "children ! (2 * i) = top s1" "children ! (2 * i + 1) = top s2"
    using 3(3,4) by (simp_all add: nth_append)
  have step: "constructLevel_loop children sz i parents t =
          constructLevel_loop children sz (i + 1) (parents @ [fresh t]) ?t'"
    using loop_step2[of i sz children parents t] sz len c by simp
  have g: "good ?t' ((done @ [Nd2 (fresh t) s1 s2]) @ ss)" by (rule good_link2[OF 3(6)])
  have fr: "fresh ?t' = Suc (fresh t)" "levels ?t' = levels t"
    by (simp_all add: link2_def set_parent_def set_left_def set_right_def alloc_def)
  have "\<exists>t''. constructLevel_loop children sz (i + 1) (parents @ [fresh t]) ?t' =
                 Inr (map top ((done @ [Nd2 (fresh t) s1 s2]) @ pair_shapes (fresh ?t') ss), t'') \<and>
              good t'' ((done @ [Nd2 (fresh t) s1 s2]) @ pair_shapes (fresh ?t') ss) \<and>
              levels t'' = levels ?t'"
    by (rule 3(1)[where pre = "pre @ [s1, s2]", OF _ _ 3(5) g]) (use 3(3,4,7) in simp_all)
  then show ?case using step fr by simp
qed

lemma constructLevel_shapes:
  assumes "good t ss"
  shows "\<exists>t'. constructLevel (map top ss) t = Inr (map top (pair_shapes (fresh t) ss), t') \<and>
              good t' (pair_shapes (fresh t) ss) \<and> levels t' = levels t"
  using constructLevel_loop_shapes[of "map top ss" "[]" ss 0 _ t "[]" "[]"] assms
  by (simp add: constructLevel_def half_up_def)

section \<open>The result of Construct\<close>

lemma half_up_bracket:
  "2 ^ Suc k < n \<Longrightarrow> n \<le> 2 ^ Suc (Suc k) \<Longrightarrow> 2 ^ k < half_up n \<and> half_up n \<le> 2 ^ Suc k"
proof -
  assume a: "2 ^ Suc k < n" "n \<le> 2 ^ Suc (Suc k)"
  have hh: "n \<le> 2 * half_up n" "2 * half_up n \<le> n + 1" unfolding half_up_def by presburger+
  have "2 * 2 ^ k < 2 * half_up n" using a(1) hh(1) by simp
  moreover have "2 * half_up n \<le> 2 * 2 ^ Suc k"
  proof -
    have "even ((2::nat) ^ Suc (Suc k))" by simp
    then have "n + 1 \<le> 2 ^ Suc (Suc k) \<or> even n" using a(2) by (cases "n = 2 ^ Suc (Suc k)") auto
    moreover have "even n \<Longrightarrow> 2 * half_up n = n" unfolding half_up_def by presburger
    ultimately show ?thesis using hh(2) a(2) by auto
  qed
  ultimately show ?thesis by simp
qed

lemma merkle_reduce_funpow:
  "2 ^ k < length ds \<Longrightarrow> length ds \<le> 2 ^ Suc k \<Longrightarrow>
   (pair_up H ^^ Suc k) ds = [merkle_reduce H ds]"
proof (induction k arbitrary: ds)
  case 0
  then have "length ds = 2" by simp
  then obtain a b where "ds = [a, b]"
    by (metis (no_types, opaque_lifting) One_nat_def Suc_1 length_0_conv length_Suc_conv)
  then show ?case by (simp add: merkle_reduce.simps)
next
  case (Suc k)
  let ?ps = "pair_up H ds"
  have b: "2 ^ k < length ?ps" "length ?ps \<le> 2 ^ Suc k"
    using half_up_bracket[OF Suc.prems] by (simp_all add: length_pair_up)
  have "1 \<le> (2::nat) ^ k" by simp
  with b(1) have "\<not> length ?ps \<le> 1" by linarith
  then have r: "merkle_reduce H ds = merkle_reduce H ?ps"
    by (subst merkle_reduce.simps) (simp add: Let_def)
  have "(pair_up H ^^ Suc (Suc k)) ds = (pair_up H ^^ Suc k) ?ps"
    by (simp only: funpow_Suc_right o_apply)
  then show ?case using Suc.IH[OF b] r by simp
qed

lemma digest_row_step:
  "Suc j < calcTreeHeight (length vals) \<Longrightarrow> digest_row H vals j = pair_up H (digest_row H vals (Suc j))"
proof -
  assume "Suc j < calcTreeHeight (length vals)"
  then have "calcTreeHeight (length vals) - 1 - j = Suc (calcTreeHeight (length vals) - 1 - Suc j)"
    by simp
  then show ?thesis by (simp add: digest_row_def)
qed

lemma digest_row_leaves:
  "digest_row H vals (calcTreeHeight (length vals) - 1) = map H vals"
  by (simp add: digest_row_def)

lemma calcTreeHeight_ge2: "0 < n \<Longrightarrow> 2 \<le> calcTreeHeight n"
proof -
  assume "0 < n"
  show ?thesis
  proof (cases "n = 1")
    case True
    then show ?thesis by (simp add: calcTreeHeight_def)
  next
    case False
    with \<open>0 < n\<close> have "2 \<le> n" by simp
    then obtain k where "2 ^ k < n" "n \<le> 2 ^ Suc k" using ex_power_bracket by blast
    then have "Log2 n = Suc k" by (rule Log2_eq)
    then show ?thesis using \<open>2 \<le> n\<close> by (simp add: calcTreeHeight_def)
  qed
qed

lemma digest_row_root:
  assumes "vals \<noteq> []"
  shows "digest_row H vals 0 = [merkle_root H vals]"
proof (cases "length vals = 1")
  case True
  then obtain v where "vals = [v]" by (cases vals) auto
  then show ?thesis
    by (simp add: digest_row_def calcTreeHeight_def merkle_root_def merkle_reduce.simps)
next
  case False
  have "length vals \<noteq> 0" using assms by simp
  with False have n: "2 \<le> length vals" by linarith
  then obtain k where k: "2 ^ k < length vals" "length vals \<le> 2 ^ Suc k"
    using ex_power_bracket by blast
  have "calcTreeHeight (length vals) - 1 = Suc k"
    using Log2_eq[OF k] n assms by (simp add: calcTreeHeight_def)
  then show ?thesis
    using merkle_reduce_funpow[of k "map H vals" H] k by (simp add: digest_row_def merkle_root_def)
qed


lemma build_levels_shapes:
  assumes "good t ss" "length (levels t) = h" "k < h"
    "\<forall>j. k \<le> j \<and> j < h \<longrightarrow>
        levels t ! j = map top (row (j - k) ss) \<and> map (dig H) (row (j - k) ss) = D j"
    "\<forall>j < k. D j = pair_up H (D (Suc j))"
  shows "\<exists>t' ss'. build_levels k t = Inr t' \<and> good t' ss' \<and> length (levels t') = h \<and>
           (\<forall>j < h. levels t' ! j = map top (row j ss') \<and> map (dig H) (row j ss') = D j)"
  using assms
proof (induction k arbitrary: t ss)
  case 0
  then show ?case by auto
next
  case (Suc k)
  have tp: "levels t ! Suc k = map top ss" "map (dig H) ss = D (Suc k)"
    using Suc.prems(3) Suc.prems(4)[rule_format, of "Suc k"] by (simp_all add: row_0)
  have ch: "index (levels t) (int (Suc k)) = Inr (map top ss)"
    using Suc.prems(2,3) tp(1) index_nat[of "Suc k" "levels t"] by simp
  obtain t1 where t1: "constructLevel (map top ss) t = Inr (map top (pair_shapes (fresh t) ss), t1)"
    "good t1 (pair_shapes (fresh t) ss)" "levels t1 = levels t"
    using constructLevel_shapes[OF Suc.prems(1)] by blast
  let ?ss1 = "pair_shapes (fresh t) ss"
  let ?t2 = "t1\<lparr>levels := (levels t1)[k := map top ?ss1]\<rparr>"
  have sl: "set_level k (map top ?ss1) t1 = Inr ?t2"
    using Suc.prems(2,3) t1(3) by (simp add: set_level_def)
  have g2: "good ?t2 ?ss1" using t1(2) by (simp add: good_levels_update)
  have len2: "length (levels ?t2) = h" using Suc.prems(2) t1(3) by simp
  have rows: "\<forall>j. k \<le> j \<and> j < h \<longrightarrow>
        levels ?t2 ! j = map top (row (j - k) ?ss1) \<and> map (dig H) (row (j - k) ?ss1) = D j"
  proof (intro allI impI)
    fix j assume j: "k \<le> j \<and> j < h"
    show "levels ?t2 ! j = map top (row (j - k) ?ss1) \<and> map (dig H) (row (j - k) ?ss1) = D j"
    proof (cases "j = k")
      case True
      have "map (dig H) ?ss1 = D k" using tp(2) Suc.prems(5) by (simp add: dig_pair_shapes)
      then show ?thesis using True j Suc.prems(2) t1(3) by (simp add: row_0)
    next
      case False
      with j have j': "Suc k \<le> j \<and> j < h" by simp
      then have e: "j - k = Suc (j - Suc k)" by arith
      show ?thesis
        using Suc.prems(4)[rule_format, OF j'] False t1(3) by (simp add: e row_pair_shapes)
    qed
  qed
  have D': "\<forall>j < k. D j = pair_up H (D (Suc j))" using Suc.prems(5) by simp
  have "k < h" using Suc.prems(3) by simp
  from Suc.IH[OF g2 len2 this rows D'] show ?case
    using ch t1(1) sl by simp
qed


lemma tops_at_refs: "s' \<in> set (tops_at m s) \<Longrightarrow> set (refs s') \<subseteq> set (refs s)"
  by (induction m s rule: tops_at.induct) auto

lemma fill_tops_at:
  "linked hp s \<Longrightarrow> distinct (refs s) \<Longrightarrow> s' \<in> set (tops_at m s) \<Longrightarrow>
   node_h (fill H hp s (top s')) = Some (dig H s')"
proof (induction m s arbitrary: hp rule: tops_at.induct)
  case (1 s)
  then show ?case by (simp add: fill_top)
next
  case (2 m a d)
  then show ?case by simp
next
  case (3 m a l)
  have "top s' \<in> set (refs l)" using 3(4) tops_at_refs[of s' m l] top_in_refs[of s'] by auto
  then have "top s' \<noteq> a" using 3(3) by auto
  then show ?case using 3 by (simp add: Let_def)
next
  case (4 m a l r)
  have lk: "linked hp l" "linked hp r" and dl: "distinct (refs l)" "distinct (refs r)"
    and dj: "set (refs l) \<inter> set (refs r) = {}"
    and al: "a \<notin> set (refs l)" "a \<notin> set (refs r)"
    using 4(3,4) by simp_all
  from 4(5) consider "s' \<in> set (tops_at m l)" | "s' \<in> set (tops_at m r)" by auto
  then show ?case
  proof cases
    case 1
    have in_l: "top s' \<in> set (refs l)" using 1 tops_at_refs[of s' m l] top_in_refs[of s'] by auto
    then have "top s' \<noteq> a" "top s' \<notin> set (refs r)" using al dj by auto
    then show ?thesis using 4(1)[OF lk(1) dl(1) 1] by (simp add: Let_def fill_other)
  next
    case 2
    have in_r: "top s' \<in> set (refs r)" using 2 tops_at_refs[of s' m r] top_in_refs[of s'] by auto
    then have ne: "top s' \<noteq> a" using al by auto
    have "linked (fill H hp l) r"
      using linked_fill_disjoint[OF lk(2), of l H] dj by (simp add: Int_commute)
    from 4(2)[OF this dl(2) 2] show ?thesis using ne by (simp add: Let_def)
  qed
qed

lemma link_levels_shape:
  assumes "vals \<noteq> []"
  shows "\<exists>t' s. link_levels H vals t = Inr t' \<and> good t' [s] \<and>
           length (levels t') = calcTreeHeight (length vals) \<and>
           (\<forall>j < calcTreeHeight (length vals).
               levels t' ! j = map top (tops_at j s) \<and>
               map (dig H) (tops_at j s) = digest_row H vals j)"
proof -
  let ?h = "calcTreeHeight (length vals)"
  let ?t0 = "t\<lparr>levels := replicate ?h []\<rparr>"
  let ?ls = "leaf_shapes (fresh ?t0) (map H vals)"
  have h2: "2 \<le> ?h" using assms by (simp add: calcTreeHeight_ge2)
  obtain t1 where t1: "make_leaves H vals [] ?t0 = (map top ?ls, t1)" "good t1 ?ls"
    "levels t1 = replicate ?h []"
    using make_leaves_shapes[OF good_Nil, where t = ?t0 and H = H and vals = vals and lvl = "[]"]
    by auto
  let ?t2 = "t1\<lparr>levels := (levels t1)[?h - 1 := map top ?ls]\<rparr>"
  have sl: "set_level (?h - 1) (map top ?ls) t1 = Inr ?t2"
    using h2 t1(3) by (simp add: set_level_def)
  have g2: "good ?t2 ?ls" using t1(2) by (simp add: good_levels_update)
  have len2: "length (levels ?t2) = ?h" using t1(3) by simp
  have kh: "?h - 1 < ?h" using h2 by simp
  have rows: "\<forall>j. ?h - 1 \<le> j \<and> j < ?h \<longrightarrow>
        levels ?t2 ! j = map top (row (j - (?h - 1)) ?ls) \<and>
        map (dig H) (row (j - (?h - 1)) ?ls) = digest_row H vals j"
  proof (intro allI impI)
    fix j assume "?h - 1 \<le> j \<and> j < ?h"
    then have j: "j = ?h - 1" by arith
    show "levels ?t2 ! j = map top (row (j - (?h - 1)) ?ls) \<and>
        map (dig H) (row (j - (?h - 1)) ?ls) = digest_row H vals j"
      using t1(3) h2 digest_row_leaves[of H vals] by (simp add: j row_0 dig_leaf_shapes)
  qed
  have st: "\<forall>j < ?h - 1. digest_row H vals j = pair_up H (digest_row H vals (Suc j))"
    using digest_row_step[of _ vals H] by simp
  obtain t' ss' where b: "build_levels (?h - 1) ?t2 = Inr t'" "good t' ss'"
    "length (levels t') = ?h"
    "\<forall>j < ?h. levels t' ! j = map top (row j ss') \<and> map (dig H) (row j ss') = digest_row H vals j"
    using build_levels_shapes[OF g2 len2 kh rows st] by blast
  have "map (dig H) ss' = [merkle_root H vals]"
    using b(4)[rule_format, of 0] h2 digest_row_root[OF assms, of H] by (simp add: row_0)
  then obtain s where s: "ss' = [s]" by (cases ss') auto
  have ll: "link_levels H vals t = Inr t'"
    using h2 t1(1) sl b(1) by (simp add: link_levels_def Let_def)
  show ?thesis
    using ll b(2,3,4) by (auto simp: s row_def)
qed

lemma Construct_result:
  assumes "Empty t" "vals \<noteq> []"
  shows "\<exists>t'. Construct H vals t = Some (Inr (Some (merkle_root H vals)), t') \<and>
           length (levels t') = calcTreeHeight (length vals) \<and>
           (\<forall>j < calcTreeHeight (length vals).
               map (\<lambda>a. node_h (heap t' a)) (levels t' ! j) = map Some (digest_row H vals j))"
proof -
  let ?h = "calcTreeHeight (length vals)"
  obtain t1 s where l: "link_levels H vals t = Inr t1" "good t1 [s]" "length (levels t1) = ?h"
    "\<forall>j < ?h. levels t1 ! j = map top (tops_at j s) \<and>
               map (dig H) (tops_at j s) = digest_row H vals j"
    using link_levels_shape[OF assms(2), of H t] by blast
  have h2: "2 \<le> ?h" using assms(2) by (simp add: calcTreeHeight_ge2)
  have lk: "linked (heap t1) s" "distinct (refs s)" using l(2) by (simp_all add: good_def)
  have l0: "levels t1 ! 0 = [top s]" using l(4)[rule_format, of 0] h2 by simp
  have d0: "dig H s = merkle_root H vals"
    using l(4)[rule_format, of 0] h2 digest_row_root[OF assms(2), of H] by simp
  have rt: "root t1 = Inr (top s)"
    using l(3) h2 l0 by (simp add: root_def index_def)
  let ?t' = "t1\<lparr>heap := fill H (heap t1) s\<rparr>"
  have hs: "hashing_loop H (top s) (Some (top s)) (heap t1) =
              Some (Inr (Some (dig H s)), fill H (heap t1) s)"
    using hashing_subtree[OF lk, of "top s" H] by simp
  have c: "Construct H vals t = Some (Inr (Some (merkle_root H vals)), ?t')"
    using assms l(1) rt hs d0 by (simp add: Construct_def setHashes_def hashing_def)
  have rows: "map (\<lambda>a. node_h (heap ?t' a)) (levels ?t' ! j) = map Some (digest_row H vals j)"
    if "j < ?h" for j
  proof -
    have a: "levels ?t' ! j = map top (tops_at j s)" "map (dig H) (tops_at j s) = digest_row H vals j"
      using l(4) that by simp_all
    have "map (\<lambda>a. node_h (heap ?t' a)) (map top (tops_at j s)) = map Some (map (dig H) (tops_at j s))"
      using fill_tops_at[OF lk, of _ j H] by simp
    then show ?thesis using a by simp
  qed
  show ?thesis using c l(3) rows by (intro exI[of _ ?t']) simp
qed

section \<open>Root digest and height\<close>

text \<open>
  C1.  \<open>Construct\<close> of a non-empty list of values on an empty tree returns, and the
  digest it returns is the reference Merkle root of the values: leaves hashed in input
  order, \<open>hash(left ++ right)\<close> for a node with two children, \<open>hash(left)\<close> for a
  node with a lone left child.
\<close>

theorem Construct_root_digest:
  assumes "Empty t" "vals \<noteq> []"
  shows "map_option fst (Construct H vals t) = Some (Inr (Some (merkle_root H vals)))"
  using Construct_result[OF assms, of H] by auto

theorem Construct_root_digest_witness:
  "Empty NewTree \<and> [[1], [2], [3 :: byte]] \<noteq> [] \<and>
   map_option fst (Construct checksum [[1], [2], [3]] NewTree) = Some (Inr (Some [14]))"
proof -
  have e: "Empty NewTree" by (simp add: Empty_def Height_def NewTree_def)
  have m: "merkle_root checksum [[1], [2], [3]] = [14]"
    by (simp add: merkle_root_def merkle_reduce.simps checksum_def)
  show ?thesis
    using Construct_root_digest[OF e, of "[[1], [2], [3]]" checksum] e m by simp
qed

lemma calcTreeHeight_formula:
  "0 < n \<Longrightarrow> int (calcTreeHeight n) = (if n = 1 then 2 else \<lceil>log 2 (real n)\<rceil> + 1)"
  using Log2_ceiling[of n] by (auto simp: calcTreeHeight_def)

lemma calcTreeHeight_5_8: "calcTreeHeight 5 = 4" "calcTreeHeight 8 = 4"
  using Log2_eq[of 2 5] Log2_eq[of 2 8] by (simp_all add: calcTreeHeight_def)

text \<open>
  C5.  The height of an empty tree is 0.  After \<open>Construct\<close> of \<open>count\<close> values the
  height is 2 when \<open>count = 1\<close> and \<open>ceil(log2(count)) + 1\<close> otherwise; it is 4 for 8
  leaves and for 5 leaves.
\<close>

theorem Height_formula:
  assumes "Empty t" "vals \<noteq> []"
  shows "Height NewTree = 0 \<and> Height t = 0 \<and>
         (\<exists>r t'. Construct H vals t = Some (r, t') \<and>
            Height t' = (if length vals = 1 then 2 else \<lceil>log 2 (real (length vals))\<rceil> + 1) \<and>
            (length vals = 8 \<or> length vals = 5 \<longrightarrow> Height t' = 4))"
proof -
  obtain t' where t': "Construct H vals t = Some (Inr (Some (merkle_root H vals)), t')"
    "length (levels t') = calcTreeHeight (length vals)"
    using Construct_result[OF assms, of H] by blast
  have "Height t' = (if length vals = 1 then 2 else \<lceil>log 2 (real (length vals))\<rceil> + 1)"
    using calcTreeHeight_formula[of "length vals"] assms(2) t'(2) by (simp add: Height_def)
  moreover have "length vals = 8 \<or> length vals = 5 \<longrightarrow> Height t' = 4"
    using t'(2) calcTreeHeight_5_8 by (auto simp: Height_def)
  moreover have "Height NewTree = 0" by (simp add: Height_def NewTree_def)
  ultimately show ?thesis using assms(1) t'(1) by (auto simp: Empty_def)
qed

theorem Height_formula_witness:
  "Empty NewTree \<and> [[1], [2], [3], [4], [5 :: byte]] \<noteq> [] \<and> Height NewTree = 0 \<and>
   (\<exists>r t'. Construct checksum [[1], [2], [3], [4], [5]] NewTree = Some (r, t') \<and> Height t' = 4)"
proof -
  have e: "Empty NewTree" by (simp add: Empty_def Height_def NewTree_def)
  show ?thesis
    using Height_formula[OF e, of "[[1], [2], [3], [4], [5]]" checksum] e by auto
qed

section \<open>ComputeProof on a constructed tree\<close>

lemma Construct_has_rows:
  assumes "Empty t" "vals \<noteq> []"
  shows "\<exists>t'. Construct H vals t = Some (Inr (Some (merkle_root H vals)), t') \<and>
           has_rows t' (calcTreeHeight (length vals)) (digest_row H vals)"
  using Construct_result[OF assms, of H] by (simp add: has_rows_def)

lemma has_rows_length: "has_rows t h R \<Longrightarrow> j < h \<Longrightarrow> length (levels t ! j) = length (R j)"
  unfolding has_rows_def by (metis length_map)

lemma has_rows_nth:
  assumes "has_rows t h R" "j < h" "i < length (R j)"
  shows "node_h (heap t (levels t ! j ! i)) = Some (R j ! i)"
proof -
  have m: "map (\<lambda>a. node_h (heap t a)) (levels t ! j) = map Some (R j)"
    using assms(1,2) by (simp add: has_rows_def)
  have "i < length (levels t ! j)" using has_rows_length[OF assms(1,2)] assms(3) by simp
  then have "map (\<lambda>a. node_h (heap t a)) (levels t ! j) ! i = node_h (heap t (levels t ! j ! i))"
    by simp
  then show ?thesis using m assms(3) by simp
qed

lemma level_has_rows:
  "has_rows t h R \<Longrightarrow> j < h \<Longrightarrow> level t (int j + 1) = Inr (levels t ! j)"
  by (simp add: has_rows_def level_def index_def Height_def)

lemma xor1_nat: "(i::nat) XOR 1 = (if even i then i + 1 else i - 1)"
  using xor_one_eq[of i] by auto

lemma xor1_and1: "(((i::nat) XOR 1) AND 1 = 0) = odd i"
proof -
  have "(((i::nat) XOR 1) AND 1 = 0) = even (i XOR 1)"
    unfolding and_one_eq by presburger
  also have "\<dots> = odd i" unfolding even_xor_iff by simp
  finally show ?thesis .
qed

lemma index_errors: "index xs i = Inl e \<Longrightarrow> e = IndexOutOfRange"
  by (auto simp: index_def split: if_splits)

lemma branch_entry_out:
  "\<not> (i XOR 1) < length lvl \<Longrightarrow> branch_entry hp lvl i = Inl IndexOutOfRange"
  by (simp add: branch_entry_def index_def)

lemma branch_entry_rows:
  assumes "has_rows t h R" "j < h" "(i XOR 1) < length (R j)"
  shows "branch_entry (heap t) (levels t ! j) i =
           Inr (encode_entry (if odd i then LEFT else RIGHT, R j ! (i XOR 1)))"
proof -
  have "i XOR 1 < length (levels t ! j)" using has_rows_length[OF assms(1,2)] assms(3) by simp
  then have "index (levels t ! j) (int (i XOR 1)) = Inr (levels t ! j ! (i XOR 1))"
    by (rule index_nat)
  then show ?thesis
    using has_rows_nth[OF assms] unfolding branch_entry_def xor1_and1 by simp
qed

lemma range_scan_bound: "i < length leaves \<Longrightarrow> range_scan hp leaves h i < length leaves"
proof (induction hp leaves h i rule: range_scan.induct)
  case (1 hp leaves h i)
  then show ?case by (subst range_scan.simps) auto
qed

lemma range_scan_nomatch:
  "i < length leaves \<Longrightarrow>
   (\<forall>j. i \<le> j \<and> j < length leaves \<longrightarrow> \<not> bytes_Equal (node_h (hp (leaves ! j))) h) \<Longrightarrow>
   range_scan hp leaves h i = length leaves - 1"
proof (induction hp leaves h i rule: range_scan.induct)
  case (1 hp leaves h i)
  have nm: "\<not> bytes_Equal (node_h (hp (leaves ! i))) h" using 1(2,3) by simp
  show ?case
  proof (cases "i + 1 < length leaves")
    case True
    have "range_scan hp leaves h (i + 1) = length leaves - 1"
      using 1(1)[OF nm True True] 1(3) by simp
    then show ?thesis using nm True by (subst range_scan.simps) simp
  next
    case False
    then have "i = length leaves - 1" using 1(2) by simp
    then show ?thesis using nm False by (subst range_scan.simps) simp
  qed
qed

lemma range_scan_match:
  "i < length leaves \<Longrightarrow>
   (\<exists>j. i \<le> j \<and> j < length leaves \<and> bytes_Equal (node_h (hp (leaves ! j))) h) \<Longrightarrow>
   bytes_Equal (node_h (hp (leaves ! range_scan hp leaves h i))) h"
proof (induction hp leaves h i rule: range_scan.induct)
  case (1 hp leaves h i)
  show ?case
  proof (cases "bytes_Equal (node_h (hp (leaves ! i))) h")
    case True
    then show ?thesis by (subst range_scan.simps) simp
  next
    case False
    from 1(3) obtain j where j: "i \<le> j" "j < length leaves"
      "bytes_Equal (node_h (hp (leaves ! j))) h" by blast
    with False have "i \<noteq> j" by auto
    with j have lt: "i + 1 < length leaves" and "i + 1 \<le> j" by simp_all
    then have "bytes_Equal (node_h (hp (leaves ! range_scan hp leaves h (i + 1)))) h"
      using 1(1)[OF False lt lt] j by blast
    then show ?thesis using False lt by (subst range_scan.simps) simp
  qed
qed

lemma find_leaf_bound: "leaves \<noteq> [] \<Longrightarrow> find_leaf hp leaves h < length leaves"
  by (simp add: find_leaf_def range_scan_bound)

lemma find_leaf_nomatch:
  "leaves \<noteq> [] \<Longrightarrow>
   (\<forall>j < length leaves. \<not> bytes_Equal (node_h (hp (leaves ! j))) h) \<Longrightarrow>
   find_leaf hp leaves h = length leaves - 1"
  by (simp add: find_leaf_def range_scan_nomatch)

lemma find_leaf_match:
  "(\<exists>j < length leaves. bytes_Equal (node_h (hp (leaves ! j))) h) \<Longrightarrow>
   bytes_Equal (node_h (hp (leaves ! find_leaf hp leaves h))) h"
  using range_scan_match[of 0 leaves hp h] by (auto simp: find_leaf_def)

lemma branch_entry_errors: "branch_entry hp lvl i = Inl e \<Longrightarrow> e = IndexOutOfRange"
  by (auto simp: branch_entry_def split: if_splits sum.splits dest: index_errors)

lemma level_errors: "level t height = Inl e \<Longrightarrow> e = HeightOutOfRange \<or> e = IndexOutOfRange"
  by (auto simp: level_def Let_def split: if_splits dest: index_errors)

lemma proof_loop_errors:
  "proof_loop t i height br = Inl e \<Longrightarrow> e = HeightOutOfRange \<or> e = IndexOutOfRange"
proof (induction t i height br rule: proof_loop.induct)
  case (1 t i height br)
  show ?case
  proof (cases "level t (height - 1)")
    case (Inl e')
    then show ?thesis using 1(2) level_errors[OF Inl] by (subst (asm) proof_loop.simps) simp
  next
    case lv: (Inr lvl)
    show ?thesis
    proof (cases "length lvl = 1")
      case True
      then show ?thesis using 1(2) lv by (subst (asm) proof_loop.simps) simp
    next
      case False
      show ?thesis
      proof (cases "branch_entry (heap t) lvl (i div 2)")
        case (Inl e')
        then show ?thesis
          using 1(2) lv False branch_entry_errors[OF Inl] by (subst (asm) proof_loop.simps) simp
      next
        case (Inr en)
        have "proof_loop t (i div 2) (height - 1) (br @ [en]) = Inl e"
          using 1(2) lv False Inr by (subst (asm) proof_loop.simps) simp
        then show ?thesis using 1(1)[OF refl refl lv False Inr] by simp
      qed
    qed
  qed
qed

text \<open>On a constructed tree the check for ``Val not found'' never fires.\<close>

lemma ComputeProof_never_NotFound:
  assumes "has_rows t h R" "0 < h" "R (h - 1) \<noteq> []"
  shows "ComputeProof H v t \<noteq> Inl ValNotFound"
proof -
  let ?leaves = "levels t ! (h - 1)"
  have lv: "level t (Height t) = Inr ?leaves"
    using level_has_rows[OF assms(1), of "h - 1"] assms(1,2) by (simp add: Height_def has_rows_def)
  have ne: "?leaves \<noteq> []" using has_rows_length[OF assms(1), of "h - 1"] assms(2,3) by auto
  have "find_leaf (heap t) ?leaves (hash_sum H v) \<noteq> length ?leaves"
    using find_leaf_bound[OF ne, of "heap t" "hash_sum H v"] by simp
  then show ?thesis
    using lv
    by (auto simp: ComputeProof_def Let_def split: sum.splits
             dest: branch_entry_errors proof_loop_errors)
qed

section \<open>Inputs on which ComputeProof goes wrong\<close>

lemma Empty_NewTree: "Empty NewTree"
  by (simp add: Empty_def Height_def NewTree_def)

lemma calcTreeHeight_small: "calcTreeHeight 1 = 2" "calcTreeHeight 2 = 2" "calcTreeHeight 3 = 3"
  using Log2_eq[of 0 2] Log2_eq[of 1 3] by (simp_all add: calcTreeHeight_def)

lemma calcTreeHeight_Suc:
  "calcTreeHeight (Suc 0) = 2" "calcTreeHeight (Suc (Suc 0)) = 2"
  "calcTreeHeight (Suc (Suc (Suc 0))) = 3"
  using calcTreeHeight_small by (simp_all add: numeral_2_eq_2 numeral_3_eq_3)

lemma bytes_Equal_Some: "bytes_Equal (Some x) (hash_sum H v) = (x = H v)"
  by (simp add: bytes_Equal_def hash_sum_def)

lemma ComputeProof_single:
  assumes "has_rows t 2 R" "length (R 1) = 1"
  shows "ComputeProof H v t = Inl IndexOutOfRange"
proof -
  let ?leaves = "levels t ! 1"
  have lv: "level t (Height t) = Inr ?leaves"
    using level_has_rows[OF assms(1), of 1] assms(1) by (simp add: Height_def has_rows_def)
  have len: "length ?leaves = 1" using has_rows_length[OF assms(1), of 1] assms(2) by simp
  then have ne: "?leaves \<noteq> []" by auto
  have i: "find_leaf (heap t) ?leaves (hash_sum H v) = 0"
    using find_leaf_bound[OF ne, of "heap t" "hash_sum H v"] len by simp
  have "branch_entry (heap t) ?leaves 0 = Inl IndexOutOfRange"
    using len by (intro branch_entry_out) simp
  then show ?thesis using lv i len by (simp add: ComputeProof_def Let_def)
qed

text \<open>
  C2.  The round trip fails on the tree of a single value: the only leaf has index 0,
  its sibling index \<open>0 ^ 1 = 1\<close> lies outside the leaf level, and \<open>ComputeProof\<close>
  panics on \<open>leaves[1]\<close> instead of returning a proof.
\<close>

theorem ComputeProof_single_value_panics:
  "\<exists>t'. Construct H [v] NewTree = Some (Inr (Some (merkle_root H [v])), t') \<and>
        ComputeProof H v t' = Inl IndexOutOfRange"
proof -
  obtain t' where t': "Construct H [v] NewTree = Some (Inr (Some (merkle_root H [v])), t')"
    "has_rows t' (calcTreeHeight (length [v])) (digest_row H [v])"
    using Construct_has_rows[OF Empty_NewTree, of "[v]" H] by auto
  have r: "has_rows t' 2 (digest_row H [v])" using t'(2) by (simp add: calcTreeHeight_Suc)
  have "length (digest_row H [v] 1) = 1" by (simp add: digest_row_def calcTreeHeight_Suc)
  from ComputeProof_single[OF r this] t'(1) show ?thesis by blast
qed

lemma proof_loop_root:
  assumes "has_rows t h R" "0 < h" "length (R 0) = 1"
  shows "proof_loop t i 2 br = Inr br"
proof -
  have "level t 1 = Inr (levels t ! 0)" using level_has_rows[OF assms(1), of 0] assms(2) by simp
  moreover have "length (levels t ! 0) = 1" using has_rows_length[OF assms(1), of 0] assms(2,3) by simp
  ultimately show ?thesis by (subst proof_loop.simps) simp
qed

lemma ComputeProof_pair_absent:
  assumes "has_rows t 2 R" "R 1 = [da, db]" "length (R 0) = 1" "H z \<noteq> da" "H z \<noteq> db"
  shows "ComputeProof H z t = Inr \<lparr>proof_br = [Some (0 # da)], proof_h = H z\<rparr>"
proof -
  let ?leaves = "levels t ! 1"
  have lv: "level t (Height t) = Inr ?leaves"
    using level_has_rows[OF assms(1), of 1] assms(1) by (simp add: Height_def has_rows_def)
  have len: "length ?leaves = 2" using has_rows_length[OF assms(1), of 1] assms(2) by simp
  then have ne: "?leaves \<noteq> []" by auto
  have nm: "\<forall>j < length ?leaves. \<not> bytes_Equal (node_h (heap t (?leaves ! j))) (hash_sum H z)"
  proof (intro allI impI)
    fix j assume "j < length ?leaves"
    then have j: "j < length (R 1)" using len assms(2) by simp
    have "R 1 ! j \<noteq> H z" using j assms(2,4,5) by (cases j) auto
    then show "\<not> bytes_Equal (node_h (heap t (?leaves ! j))) (hash_sum H z)"
      using has_rows_nth[OF assms(1) _ j] by (simp add: bytes_Equal_Some)
  qed
  have i: "find_leaf (heap t) ?leaves (hash_sum H z) = 1"
    using find_leaf_nomatch[OF ne nm] len by simp
  have x: "(1::nat) XOR 1 = 0" by simp
  have be: "branch_entry (heap t) ?leaves 1 = Inr (Some (0 # da))"
    using branch_entry_rows[OF assms(1), of 1 1] assms(2) by (simp add: x)
  have pl: "proof_loop t 1 (Height t) [Some (0 # da)] = Inr [Some (0 # da)]"
    using proof_loop_root[OF assms(1) _ assms(3)] assms(1) by (simp add: Height_def has_rows_def)
  show ?thesis using lv i len be pl by (simp add: ComputeProof_def Let_def NewProof_def hash_sum_def)
qed

text \<open>
  After \<open>Construct\<close> of any non-empty list of values, no value makes \<open>ComputeProof\<close>
  return ``Val not found''.
\<close>

lemma ComputeProof_never_NotFound_constructed:
  assumes "Empty t" "vals \<noteq> []"
  shows "\<exists>r t'. Construct H vals t = Some (r, t') \<and> (\<forall>v. ComputeProof H v t' \<noteq> Inl ValNotFound)"
proof -
  let ?h = "calcTreeHeight (length vals)"
  obtain t' where t': "Construct H vals t = Some (Inr (Some (merkle_root H vals)), t')"
    "has_rows t' ?h (digest_row H vals)"
    using Construct_has_rows[OF assms, of H] by blast
  have h: "0 < ?h" using calcTreeHeight_ge2[of "length vals"] assms(2) by simp
  have ne: "digest_row H vals (?h - 1) \<noteq> []"
    using digest_row_leaves[of H vals] assms(2) by simp
  have "\<forall>v. ComputeProof H v t' \<noteq> Inl ValNotFound"
    using ComputeProof_never_NotFound[OF t'(2) h ne, of H] by blast
  with t'(1) show ?thesis by blast
qed

text \<open>
  C3.  The scan of the leaf level leaves \<open>i\<close> at the last index when no leaf matches,
  so the test \<open>i == len(leaves)\<close> fails and the value is treated as the last leaf: on the
  tree of two values \<open>a\<close>, \<open>b\<close>, \<open>ComputeProof\<close> of a value \<open>z\<close> whose digest is
  neither leaf's returns a proof (the branch of the leaf of \<open>b\<close> with the digest of
  \<open>z\<close>) where ``Val not found'' is due.
\<close>

theorem ComputeProof_absent_value:
  assumes "H z \<noteq> H a" "H z \<noteq> H b"
  shows "\<exists>t'. Construct H [a, b] NewTree = Some (Inr (Some (merkle_root H [a, b])), t') \<and>
           ComputeProof H z t' = Inr \<lparr>proof_br = [Some (0 # H a)], proof_h = H z\<rparr>"
proof -
  obtain t' where t': "Construct H [a, b] NewTree = Some (Inr (Some (merkle_root H [a, b])), t')"
    "has_rows t' (calcTreeHeight (length [a, b])) (digest_row H [a, b])"
    using Construct_has_rows[OF Empty_NewTree, of "[a, b]" H] by auto
  have r: "has_rows t' 2 (digest_row H [a, b])" using t'(2) by (simp add: calcTreeHeight_Suc)
  have r1: "digest_row H [a, b] 1 = [H a, H b]" by (simp add: digest_row_def calcTreeHeight_Suc)
  have r0: "length (digest_row H [a, b] 0) = 1" by (simp add: digest_row_def calcTreeHeight_Suc)
  from ComputeProof_pair_absent[where H = H and z = z, OF r r1 r0 assms] t'(1)
  show ?thesis by blast
qed

theorem ComputeProof_absent_value_witness:
  "checksum [122 :: byte] \<noteq> checksum [97] \<and> checksum [122 :: byte] \<noteq> checksum [98] \<and>
   (\<exists>t'. Construct checksum [[97], [98]] NewTree =
            Some (Inr (Some (merkle_root checksum [[97], [98]])), t') \<and>
          ComputeProof checksum [122] t' = Inr \<lparr>proof_br = [Some [0, 98]], proof_h = [123]\<rparr>)"
  using ComputeProof_absent_value[of checksum "[122]" "[97]" "[98]"] by (simp add: checksum_def)

section \<open>Trees of a power-of-two number of values\<close>

lemma half_up_double: "half_up (2 * n) = n"
  by (simp add: half_up_def)

lemma length_funpow_pair_up:
  "length ((pair_up H ^^ m) ds) = (half_up ^^ m) (length ds)"
  by (induction m) (simp_all add: length_pair_up)

lemma funpow_half_up_pow2: "(half_up ^^ m) (2 ^ (j + m)) = 2 ^ j"
proof (induction m arbitrary: j)
  case 0
  show ?case by simp
next
  case (Suc m)
  have "(half_up ^^ Suc m) (2 ^ (j + Suc m)) = half_up ((half_up ^^ m) (2 ^ (Suc j + m)))"
    by simp
  also have "\<dots> = half_up (2 ^ Suc j)" by (simp only: Suc.IH)
  also have "\<dots> = 2 ^ j" using half_up_double[of "2 ^ j"] by simp
  finally show ?case .
qed

lemma calcTreeHeight_pow2: "1 \<le> k \<Longrightarrow> calcTreeHeight (2 ^ k) = Suc k"
proof -
  assume k: "1 \<le> k"
  then have "(2::nat) ^ k \<noteq> 1" by (cases k) auto
  then show ?thesis by (simp add: calcTreeHeight_def Log2_power)
qed

lemma length_digest_row_pow2:
  assumes "length vals = 2 ^ k" "1 \<le> k" "j \<le> k"
  shows "length (digest_row H vals j) = 2 ^ j"
proof -
  have "calcTreeHeight (length vals) - 1 - j = k - j"
    using assms(1,2) by (simp add: calcTreeHeight_pow2)
  moreover have "(2::nat) ^ k = 2 ^ (j + (k - j))" using assms(3) by simp
  ultimately show ?thesis
    using funpow_half_up_pow2[of "k - j" j] assms(1)
    by (simp add: digest_row_def length_funpow_pair_up)
qed

lemma xor1_less_even: "even n \<Longrightarrow> i < n \<Longrightarrow> (i::nat) XOR 1 < n"
  unfolding xor1_nat by (auto elim!: evenE)

lemma proof_loop_pow2:
  assumes r: "has_rows t h R" and len: "\<forall>j < h. length (R j) = 2 ^ j"
  shows "Suc m < h \<Longrightarrow> i < 2 ^ Suc m \<Longrightarrow>
         proof_loop t i (int (Suc m) + 1) br =
           Inr (br @ map encode_entry (path_entries R m (i div 2)))"
proof (induction m arbitrary: i br)
  case 0
  have "level t 1 = Inr (levels t ! 0)" using level_has_rows[OF r, of 0] 0(1) by simp
  moreover have "length (levels t ! 0) = 1" using has_rows_length[OF r, of 0] len 0(1) by simp
  ultimately show ?case by (subst proof_loop.simps) simp
next
  case (Suc m)
  let ?i = "i div 2"
  have mh: "Suc m < h" using Suc.prems(1) by simp
  have lv: "level t (int (Suc m) + 1) = Inr (levels t ! Suc m)" by (rule level_has_rows[OF r mh])
  have ll: "length (levels t ! Suc m) = 2 ^ Suc m" using has_rows_length[OF r mh] len mh by simp
  have n1: "length (levels t ! Suc m) \<noteq> 1" unfolding ll by simp
  have i2: "?i < 2 ^ Suc m" using Suc.prems(2) by simp
  have x: "?i XOR 1 < length (R (Suc m))"
    using xor1_less_even[of "2 ^ Suc m" ?i] i2 len mh by simp
  let ?e = "encode_entry (if odd ?i then LEFT else RIGHT, R (Suc m) ! (?i XOR 1))"
  have be: "branch_entry (heap t) (levels t ! Suc m) ?i = Inr ?e"
    by (rule branch_entry_rows[OF r mh x])
  have "proof_loop t i (int (Suc (Suc m)) + 1) br = proof_loop t ?i (int (Suc m) + 1) (br @ [?e])"
    using lv n1 be by (subst proof_loop.simps) (simp add: Let_def)
  also have "\<dots> = Inr ((br @ [?e]) @ map encode_entry (path_entries R m (?i div 2)))"
    by (rule Suc.IH[OF mh i2])
  finally show ?case by simp
qed

lemma ComputeProof_pow2:
  assumes r: "has_rows t (Suc k) R" and len: "\<forall>j < Suc k. length (R j) = 2 ^ j" and k: "1 \<le> k"
  shows "ComputeProof H v t =
           Inr \<lparr>proof_br = map encode_entry
                    (path_entries R k (find_leaf (heap t) (levels t ! k) (hash_sum H v))),
                proof_h = H v\<rparr>"
proof -
  obtain m where m: "k = Suc m" using k by (cases k) auto
  let ?leaves = "levels t ! k"
  let ?i = "find_leaf (heap t) ?leaves (hash_sum H v)"
  have "Height t = int k + 1" using r by (simp add: Height_def has_rows_def)
  then have lv: "level t (Height t) = Inr ?leaves"
    using level_has_rows[OF r, of k] by simp
  have ll: "length ?leaves = 2 ^ k" using has_rows_length[OF r, of k] len by simp
  then have ne: "?leaves \<noteq> []" by auto
  have i: "?i < 2 ^ k" using find_leaf_bound[OF ne, of "heap t" "hash_sum H v"] ll by simp
  have x: "?i XOR 1 < length (R k)" using xor1_less_even[of "2 ^ k" ?i] i len m by simp
  let ?e = "encode_entry (if odd ?i then LEFT else RIGHT, R k ! (?i XOR 1))"
  have be: "branch_entry (heap t) ?leaves ?i = Inr ?e"
    by (rule branch_entry_rows[OF r _ x]) simp
  have hk: "Height t = int (Suc m) + 1" using r m by (simp add: Height_def has_rows_def)
  have pl: "proof_loop t ?i (Height t) [?e] =
              Inr ([?e] @ map encode_entry (path_entries R m (?i div 2)))"
    unfolding hk by (rule proof_loop_pow2[OF r len]) (use m i in simp_all)
  have "ComputeProof H v t =
          Inr (NewProof ([?e] @ map encode_entry (path_entries R m (?i div 2))) (bytes_of (hash_sum H v)))"
    using lv i ll be pl by (simp add: ComputeProof_def Let_def)
  then show ?thesis by (simp add: m NewProof_def hash_sum_def)
qed


lemma pair_up_nth:
  "2 * m + 1 < length ds \<Longrightarrow> pair_up H ds ! m = H (ds ! (2 * m) @ ds ! (2 * m + 1))"
proof (induction H ds arbitrary: m rule: pair_up.induct)
  case (1 H)
  then show ?case by simp
next
  case (2 H d)
  then show ?case by simp
next
  case (3 H d1 d2 ds)
  show ?case
  proof (cases m)
    case 0
    then show ?thesis by simp
  next
    case (Suc m')
    with 3(2) have "2 * m' + 1 < length ds" by simp
    from 3(1)[OF this] show ?thesis by (simp add: Suc)
  qed
qed

lemma xor_Suc_0_nat: "(i::nat) XOR Suc 0 = (if even i then Suc i else i - Suc 0)"
  using xor1_nat[of i] by simp

lemma combine_pair:
  assumes "i < length ds" "even (length ds)"
  shows "combine H (ds ! i) (if odd i then LEFT else RIGHT, ds ! (i XOR 1)) =
           pair_up H ds ! (i div 2)"
proof (cases "even i")
  case True
  then obtain q where q: "i = 2 * q" by (elim evenE)
  have "2 * q + 1 < length ds" using assms q by (auto elim!: evenE)
  from pair_up_nth[OF this, of H] show ?thesis using True q by (simp add: xor_Suc_0_nat)
next
  case False
  then obtain q where q: "i = 2 * q + 1" by (elim oddE)
  have "2 * q + 1 < length ds" using assms q by simp
  from pair_up_nth[OF this, of H] show ?thesis using False q by (simp add: xor_Suc_0_nat)
qed

lemma fold_path:
  assumes len: "\<forall>j \<le> k. length (R j) = 2 ^ j"
    and up: "\<forall>j < k. R j = pair_up H (R (Suc j))"
  shows "m \<le> k \<Longrightarrow> i < 2 ^ m \<Longrightarrow> fold_branch H (path_entries R m i) (R m ! i) = R 0 ! 0"
proof (induction m arbitrary: i)
  case 0
  then show ?case by (simp add: fold_branch_def)
next
  case (Suc m)
  have l: "length (R (Suc m)) = 2 ^ Suc m" using len Suc.prems(1) by simp
  have c: "combine H (R (Suc m) ! i) (if odd i then LEFT else RIGHT, R (Suc m) ! (i XOR 1)) =
             R m ! (i div 2)"
    using combine_pair[of i "R (Suc m)" H] l Suc.prems up by simp
  have "i div 2 < 2 ^ m" using Suc.prems(2) by simp
  from Suc.IH[OF _ this] Suc.prems(1) show ?case
    using c by (simp add: fold_branch_def)
qed

lemma root_has_rows:
  assumes "has_rows t h R" "0 < h" "length (R 0) = 1"
  shows "root t = Inr (levels t ! 0 ! 0)" "node_h (heap t (levels t ! 0 ! 0)) = Some (R 0 ! 0)"
proof -
  have "length (levels t ! 0) = 1" using has_rows_length[OF assms(1,2)] assms(3) by simp
  then show "root t = Inr (levels t ! 0 ! 0)"
    using assms(1,2) by (simp add: root_def index_def has_rows_def)
  show "node_h (heap t (levels t ! 0 ! 0)) = Some (R 0 ! 0)"
    using has_rows_nth[OF assms(1,2), of 0] assms(3) by simp
qed

text \<open>
  The round trip on a tree of \<open>2 ^ k\<close> values, \<open>k \<ge> 1\<close>: for a value of the input,
  \<open>ComputeProof\<close> returns a proof and \<open>VerifyProof\<close> of that proof, its slices laid
  out as \<open>ComputeProof\<close> makes them, is true.
\<close>

lemma has_rows_levels:
  assumes "has_rows t h R" "0 < h" "length (R 0) = 1"
  shows "levels t \<noteq> []" "levels t ! 0 \<noteq> []"
proof -
  show "levels t \<noteq> []" using assms(1,2) by (auto simp: has_rows_def)
  have "length (levels t ! 0) = 1" using has_rows_length[OF assms(1,2)] assms(3) by simp
  then show "levels t ! 0 \<noteq> []" by auto
qed

lemma round_trip_pow2:
  assumes "Empty t" "length vals = 2 ^ k" "1 \<le> k" "v \<in> set vals"
  shows "\<exists>r t' p q m. Construct H vals t = Some (r, t') \<and> ComputeProof H v t' = Inr p \<and>
           place_proof spare p (tree_memory t' bufs n) = (q, m) \<and>
           fst (VerifyProof H t' m q) = Inr True"
proof -
  let ?R = "digest_row H vals"
  have ne: "vals \<noteq> []" using assms(4) by auto
  obtain t' where t': "Construct H vals t = Some (Inr (Some (merkle_root H vals)), t')"
    "has_rows t' (calcTreeHeight (length vals)) ?R"
    using Construct_has_rows[OF assms(1) ne, of H] by blast
  have r: "has_rows t' (Suc k) ?R" using t'(2) assms(2,3) by (simp add: calcTreeHeight_pow2)
  have len: "\<forall>j \<le> k. length (?R j) = 2 ^ j"
    using length_digest_row_pow2[OF assms(2,3), of _ H] by simp
  then have len': "\<forall>j < Suc k. length (?R j) = 2 ^ j" by (simp add: less_Suc_eq_le)
  have up: "\<forall>j < k. ?R j = pair_up H (?R (Suc j))"
    using digest_row_step[of _ vals H] assms(2,3) by (simp add: calcTreeHeight_pow2)
  let ?leaves = "levels t' ! k"
  let ?i = "find_leaf (heap t') ?leaves (hash_sum H v)"
  let ?es = "path_entries ?R k ?i"
  have cp: "ComputeProof H v t' = Inr \<lparr>proof_br = map encode_entry ?es, proof_h = H v\<rparr>"
    by (rule ComputeProof_pow2[OF r len' assms(3)])
  have ll: "length ?leaves = 2 ^ k" using has_rows_length[OF r, of k] len by simp
  have leaves: "?R k = map H vals"
    using digest_row_leaves[of H vals] assms(2,3) by (simp add: calcTreeHeight_pow2)
  obtain j where j: "j < length vals" "vals ! j = v" using assms(4) by (auto simp: in_set_conv_nth)
  have dj: "node_h (heap t' (?leaves ! j)) = Some (H v)"
    using has_rows_nth[OF r, of k j] j leaves by simp
  have "\<exists>j < length ?leaves. bytes_Equal (node_h (heap t' (?leaves ! j))) (hash_sum H v)"
    using j(1) dj ll assms(2) by (auto simp: bytes_Equal_Some)
  then have fm: "bytes_Equal (node_h (heap t' (?leaves ! ?i))) (hash_sum H v)"
    by (rule find_leaf_match)
  have "?leaves \<noteq> []" using ll by auto
  then have ib: "?i < 2 ^ k" using find_leaf_bound[of ?leaves "heap t'" "hash_sum H v"] ll by simp
  have "node_h (heap t' (?leaves ! ?i)) = Some (?R k ! ?i)"
    using has_rows_nth[OF r, of k ?i] ib len by simp
  with fm have di: "?R k ! ?i = H v" by (simp add: bytes_Equal_Some)
  have fp: "fold_branch H ?es (H v) = ?R 0 ! 0"
    using fold_path[OF len up, of k ?i] ib di by simp
  have l0: "length (?R 0) = 1" using len by simp
  note rt = root_has_rows[OF r _ l0]
  note lv = has_rows_levels[OF r _ l0]
  let ?m = "tree_memory t' bufs n"
  obtain hs h m' where
    pp: "place_proof spare \<lparr>proof_br = map encode_entry ?es, proof_h = H v\<rparr> ?m =
           (\<lparr>ref_br = map Some hs, ref_h = Some h\<rparr>, m')"
      "separate m' hs (Some h)"
      "map (\<lambda>h. contents m' (Some h)) hs = map (\<lambda>e. bytes_of (encode_entry e)) ?es"
      "contents m' (Some h) = H v" "kept [] ?m m'"
    using place_proof_separate[of spare ?es "H v" ?m] by blast
  have rd: "contents m' (node_slice t' (levels t' ! 0 ! 0)) = ?R 0 ! 0"
    using root_kept[OF pp(5), of t' "levels t' ! 0 ! 0"] rt(2) by (simp add: tree_memory_root)
  from VerifyProof_separate[OF lv(1) lv(2) pp(2,3), of H]
  have "fst (VerifyProof H t' m' \<lparr>ref_br = map Some hs, ref_h = Some h\<rparr>) = Inr True"
    using rd fp pp(4) by auto
  then show ?thesis using t'(1) cp pp(1) by blast
qed

section \<open>Sibling indices inside and outside a level\<close>

lemma find_leaf_first:
  "leaves \<noteq> [] \<Longrightarrow> bytes_Equal (node_h (hp (leaves ! 0))) h \<Longrightarrow> find_leaf hp leaves h = 0"
  by (simp add: find_leaf_def range_scan.simps)

lemma ComputeProof_three_last:
  assumes r: "has_rows t 3 R" and R2: "R 2 = [da, db, dc]" and ne: "H v \<noteq> da" "H v \<noteq> db"
  shows "ComputeProof H v t = Inl IndexOutOfRange"
proof -
  let ?leaves = "levels t ! 2"
  let ?i = "find_leaf (heap t) ?leaves (hash_sum H v)"
  have "Height t = int 2 + 1" using r by (simp add: Height_def has_rows_def)
  then have lv: "level t (Height t) = Inr ?leaves" using level_has_rows[OF r, of 2] by simp
  have len: "length ?leaves = 3" using has_rows_length[OF r, of 2] R2 by simp
  then have nonempty: "?leaves \<noteq> []" by auto
  have eq: "bytes_Equal (node_h (heap t (?leaves ! j))) (hash_sum H v) = (R 2 ! j = H v)"
    if "j < 3" for j
    using has_rows_nth[OF r, of 2 j] that R2 by (simp add: bytes_Equal_Some)
  have ib: "?i < 3" using find_leaf_bound[OF nonempty, of "heap t" "hash_sum H v"] len by simp
  have i: "?i = 2"
  proof (cases "dc = H v")
    case True
    have "\<exists>j < length ?leaves. bytes_Equal (node_h (heap t (?leaves ! j))) (hash_sum H v)"
      using eq[of 2] True R2 len by (intro exI[of _ 2]) simp
    then have "bytes_Equal (node_h (heap t (?leaves ! ?i))) (hash_sum H v)"
      by (rule find_leaf_match)
    then have m: "R 2 ! ?i = H v" using eq[OF ib] by simp
    have "?i \<noteq> 0"
    proof
      assume "?i = 0"
      with m R2 ne(1) show False by simp
    qed
    moreover have "?i \<noteq> 1"
    proof
      assume "?i = 1"
      with m R2 ne(2) show False by simp
    qed
    ultimately show ?thesis using ib by linarith
  next
    case False
    have "\<forall>j < length ?leaves. \<not> bytes_Equal (node_h (heap t (?leaves ! j))) (hash_sum H v)"
    proof (intro allI impI)
      fix j assume "j < length ?leaves"
      then have j: "j < 3" using len by simp
      then have "j = 0 \<or> j = 1 \<or> j = 2" by auto
      then have "R 2 ! j \<noteq> H v" using ne False R2 by auto
      then show "\<not> bytes_Equal (node_h (heap t (?leaves ! j))) (hash_sum H v)"
        using eq[OF j] by simp
    qed
    from find_leaf_nomatch[OF nonempty this] show ?thesis using len by simp
  qed
  have "\<not> ((2::nat) XOR 1) < length ?leaves" using len by (simp add: xor_Suc_0_nat)
  then have "branch_entry (heap t) ?leaves 2 = Inl IndexOutOfRange" by (rule branch_entry_out)
  then show ?thesis using lv i len by (simp add: ComputeProof_def Let_def)
qed

lemma three_values_panic:
  assumes "H c \<noteq> H a" "H c \<noteq> H b"
  shows "\<exists>r t'. Construct H [a, b, c] NewTree = Some (r, t') \<and>
           ComputeProof H c t' = Inl IndexOutOfRange"
proof -
  obtain t' where t': "Construct H [a, b, c] NewTree = Some (Inr (Some (merkle_root H [a, b, c])), t')"
    "has_rows t' (calcTreeHeight (length [a, b, c])) (digest_row H [a, b, c])"
    using Construct_has_rows[OF Empty_NewTree, of "[a, b, c]" H] by auto
  have r: "has_rows t' 3 (digest_row H [a, b, c])" using t'(2) by (simp add: calcTreeHeight_Suc)
  have r2: "digest_row H [a, b, c] 2 = [H a, H b, H c]"
    by (simp add: digest_row_def calcTreeHeight_Suc)
  from ComputeProof_three_last[where H = H and v = c, OF r r2 assms] t'(1) show ?thesis by blast
qed

lemma even_levels_pow2:
  assumes "has_rows t (Suc k) R" "\<forall>j \<le> k. length (R j) = 2 ^ j"
  shows "\<forall>j. 1 \<le> j \<and> j < length (levels t) \<longrightarrow> even (length (levels t ! j))"
proof (intro allI impI)
  fix j assume j: "1 \<le> j \<and> j < length (levels t)"
  then have jk: "j < Suc k" using assms(1) by (simp add: has_rows_def)
  have "length (levels t ! j) = 2 ^ j" using has_rows_length[OF assms(1) jk] assms(2) jk by simp
  then show "even (length (levels t ! j))" using j by simp
qed

text \<open>
  C9.  On the tree of \<open>2 ^ k\<close> values, \<open>k \<ge> 1\<close>, every level below the root has
  even size, so every sibling index \<open>i XOR 1\<close> that \<open>ComputeProof\<close> consults lies
  inside its level: \<open>ComputeProof\<close> returns a proof for every value, and never panics.
  On the tree of three values the last leaf has index 2 and sibling index 3, outside the
  leaf level, and \<open>ComputeProof\<close> of the third value panics.
\<close>

theorem power_of_two_siblings_in_range:
  assumes "Empty t" "length vals = 2 ^ k" "1 \<le> k"
  shows "(\<exists>r t'. Construct H vals t = Some (r, t') \<and>
            (\<forall>j. 1 \<le> j \<and> j < length (levels t') \<longrightarrow> even (length (levels t' ! j))) \<and>
            (\<forall>v. \<exists>p. ComputeProof H v t' = Inr p)) \<and>
         (\<not> PowOf2 3 \<and>
          (\<exists>r t3. Construct checksum [[1], [2], [3]] NewTree = Some (r, t3) \<and>
             ComputeProof checksum [3] t3 = Inl IndexOutOfRange))"
proof -
  let ?R = "digest_row H vals"
  have ne: "vals \<noteq> []" using assms(2) by auto
  obtain t' where t': "Construct H vals t = Some (Inr (Some (merkle_root H vals)), t')"
    "has_rows t' (calcTreeHeight (length vals)) ?R"
    using Construct_has_rows[OF assms(1) ne, of H] by blast
  have r: "has_rows t' (Suc k) ?R" using t'(2) assms(2,3) by (simp add: calcTreeHeight_pow2)
  have len: "\<forall>j \<le> k. length (?R j) = 2 ^ j"
    using length_digest_row_pow2[OF assms(2,3), of _ H] by simp
  then have len': "\<forall>j < Suc k. length (?R j) = 2 ^ j" by (simp add: less_Suc_eq_le)
  have ev: "\<forall>j. 1 \<le> j \<and> j < length (levels t') \<longrightarrow> even (length (levels t' ! j))"
    by (rule even_levels_pow2[OF r len])
  have cp: "\<forall>v. \<exists>p. ComputeProof H v t' = Inr p"
    using ComputeProof_pow2[OF r len' assms(3), of H] by blast
  have first: "\<exists>r t'. Construct H vals t = Some (r, t') \<and>
            (\<forall>j. 1 \<le> j \<and> j < length (levels t') \<longrightarrow> even (length (levels t' ! j))) \<and>
            (\<forall>v. \<exists>p. ComputeProof H v t' = Inr p)"
    using t'(1) ev cp by blast
  have np: "\<not> PowOf2 3" using PowOf2_between[of 1 3] by simp
  have "\<exists>r t3. Construct checksum [[1], [2], [3 :: byte]] NewTree = Some (r, t3) \<and>
             ComputeProof checksum [3] t3 = Inl IndexOutOfRange"
    by (rule three_values_panic) (simp_all add: checksum_def)
  with first np show ?thesis by blast
qed

theorem power_of_two_siblings_in_range_witness:
  "Empty NewTree \<and> length [[1], [2 :: byte]] = 2 ^ 1 \<and> (1::nat) \<le> 1 \<and>
   (\<exists>r t'. Construct checksum [[1], [2]] NewTree = Some (r, t') \<and>
      (\<forall>j. 1 \<le> j \<and> j < length (levels t') \<longrightarrow> even (length (levels t' ! j))) \<and>
      (\<forall>v. \<exists>p. ComputeProof checksum v t' = Inr p))"
proof -
  have l: "length [[1], [2 :: byte]] = 2 ^ 1" by simp
  show ?thesis
    using power_of_two_siblings_in_range[OF Empty_NewTree l, of checksum] Empty_NewTree
    by simp
qed

section \<open>Verification of proofs in shared and in separate arrays\<close>

lemma two_values_proof:
  "\<exists>t'. Construct H [a, b] NewTree = Some (Inr (Some (H (H a @ H b))), t') \<and>
         levels t' \<noteq> [] \<and> levels t' ! 0 \<noteq> [] \<and>
         node_h (heap t' (levels t' ! 0 ! 0)) = Some (H (H a @ H b)) \<and>
         ComputeProof H a t' =
            Inr \<lparr>proof_br = map encode_entry [(RIGHT, H b)], proof_h = H a\<rparr>"
proof -
  let ?R = "digest_row H [a, b]"
  obtain t' where t': "Construct H [a, b] NewTree = Some (Inr (Some (merkle_root H [a, b])), t')"
    "has_rows t' (calcTreeHeight (length [a, b])) ?R"
    using Construct_has_rows[OF Empty_NewTree, of "[a, b]" H] by auto
  have h: "calcTreeHeight (length [a, b]) = Suc 1" by (simp add: calcTreeHeight_Suc)
  have r: "has_rows t' (Suc 1) ?R" using t'(2) unfolding h .
  have r1: "?R 1 = [H a, H b]" by (simp add: digest_row_def calcTreeHeight_Suc)
  have r0: "?R 0 = [H (H a @ H b)]" by (simp add: digest_row_def calcTreeHeight_Suc)
  have mr: "merkle_root H [a, b] = H (H a @ H b)"
    using digest_row_root[of "[a, b]" H] r0 by simp
  have len: "\<forall>j < Suc 1. length (?R j) = 2 ^ j"
  proof (intro allI impI)
    fix j :: nat assume "j < Suc 1"
    then have "j = 0 \<or> j = 1" by auto
    then show "length (?R j) = 2 ^ j" using r0 r1 by auto
  qed
  let ?leaves = "levels t' ! 1"
  have ll: "length ?leaves = 2" using has_rows_length[OF r, of 1] r1 by simp
  then have ne: "?leaves \<noteq> []" by auto
  have "node_h (heap t' (?leaves ! 0)) = Some (H a)" using has_rows_nth[OF r, of 1 0] r1 by simp
  then have i: "find_leaf (heap t') ?leaves (hash_sum H a) = 0"
    using find_leaf_first[OF ne, of "heap t'" "hash_sum H a"] by (simp add: bytes_Equal_Some)
  have cp: "ComputeProof H a t' =
              Inr \<lparr>proof_br = map encode_entry [(RIGHT, H b)], proof_h = H a\<rparr>"
    using ComputeProof_pow2[OF r len, of H a] i r1 by (simp add: xor_Suc_0_nat)
  have l0: "length (?R 0) = 1" using r0 by simp
  have rt: "node_h (heap t' (levels t' ! 0 ! 0)) = Some (H (H a @ H b))"
    using root_has_rows(2)[OF r _ l0] r0 by simp
  note lv = has_rows_levels[OF r _ l0]
  show ?thesis using t'(1) mr rt cp lv by auto
qed


lemma replay_two_values:
  "replay spare H [a, b] a =
     Some ([Some (1 # H b)], Inr True,
           Inr (H (H a @ H b) = H (H (H a @ H b) @ H b)))"
proof -
  obtain t' where t': "Construct H [a, b] NewTree = Some (Inr (Some (H (H a @ H b))), t')"
    "levels t' \<noteq> []" "levels t' ! 0 \<noteq> []"
    "node_h (heap t' (levels t' ! 0 ! 0)) = Some (H (H a @ H b))"
    "ComputeProof H a t' = Inr \<lparr>proof_br = map encode_entry [(RIGHT, H b)], proof_h = H a\<rparr>"
    using two_values_proof[of H a b] by blast
  let ?m = "tree_memory t' (\<lambda>k. []) 0"
  let ?es = "[(RIGHT, H b)]"
  obtain hs h m' where
    pp: "place_proof spare \<lparr>proof_br = map encode_entry ?es, proof_h = H a\<rparr> ?m =
           (\<lparr>ref_br = map Some hs, ref_h = Some h\<rparr>, m')"
      "separate m' hs (Some h)"
      "map (\<lambda>h. contents m' (Some h)) hs = map (\<lambda>e. bytes_of (encode_entry e)) ?es"
      "contents m' (Some h) = H a" "kept [] ?m m'"
    using place_proof_separate[of spare ?es "H a" ?m] by blast
  have rd: "contents m' (node_slice t' (levels t' ! 0 ! 0)) = H (H a @ H b)"
    using root_kept[OF pp(5), of t' "levels t' ! 0 ! 0"] t'(4) by (simp add: tree_memory_root)
  obtain res p1 m1 where v1: "VerifyProof H t' m' \<lparr>ref_br = map Some hs, ref_h = Some h\<rparr> = (res, p1, m1)"
    by (cases "VerifyProof H t' m' \<lparr>ref_br = map Some hs, ref_h = Some h\<rparr>")
  note V = VerifyProof_twice[OF t'(2,3) pp(2,3) v1]
  have first: "res = Inr True" using V(1) rd pp(4) by (simp add: fold_branch_def)
  have second: "fst (VerifyProof H t' m1 p1) = Inr (H (H a @ H b) = H (H (H a @ H b) @ H b))"
    using V(3) rd pp(4) by (simp add: fold_branch_def)
  show ?thesis
    using t'(1,5) pp(1) v1 first second by (simp add: replay_def case_prod_beta)
qed


lemma overlapping_working_digest_run:
  assumes "levels t \<noteq> []" "levels t ! 0 \<noteq> []" "node_h (heap t (levels t ! 0 ! 0)) = Some [7]"
  shows "\<exists>p' m'. VerifyProof checksum t (tree_memory t (\<lambda>k. if k = 0 then [2, 1, 3] else []) 1)
             \<lparr>ref_br = [Some \<lparr>s_arr = Buf 0, s_off = 1, s_len = 2, s_cap = 2\<rparr>],
               ref_h = Some \<lparr>s_arr = Buf 0, s_off = 0, s_len = 1, s_cap = 3\<rparr>\<rparr> = (Inr True, p', m') \<and>
           map (contents m') (ref_br p') = [[3, 3]] \<and> contents m' (ref_h p') = [7]"
  using root_pinned[OF assms(1,2)] assms(3)
  by (simp add: VerifyProof_def tree_memory_def node_slice_def
      append_slice_def new_array_def tail_slice_def checksum_def Let_def)




text \<open>
  C8 as stated fails for an engine whose digests repeat: with the constant engine, the
  proof of the first of two values has one branch entry, the first \<open>VerifyProof\<close>
  returns true and so does the second on the same, mutated proof.
\<close>

theorem replay_constant_engine_counterexample:
  "replay spare8 constant_engine [[1], [2]] [1] = Some ([Some [1, 7]], Inr True, Inr True)"
  using replay_two_values[of spare8 constant_engine "[1]" "[2]"] by (simp add: constant_engine_def)

text \<open>
  C8, amended.  Take a fresh proof: the entries and the working digest each in a
  backing array of their own, as \<open>ComputeProof\<close> makes them.  \<open>VerifyProof\<close> replaces
  the proof's working digest; after a call that returned true the working digest is the
  root digest, and a second call on the same proof re-hashes that digest along the
  branch: it returns whether folding the entries over the root digest gives the root
  digest again, so false whenever that re-hash differs from the root digest.
\<close>

theorem VerifyProof_replay:
  assumes "levels t \<noteq> []" and "levels t ! 0 \<noteq> []"
    and "contents m (node_slice t (levels t ! 0 ! 0)) =
           bytes_of (node_h (heap t (levels t ! 0 ! 0)))"
    and "separate m hs ph"
    and "map (\<lambda>h. contents m (Some h)) hs = map (\<lambda>e. bytes_of (encode_entry e)) es"
    and "VerifyProof H t m \<lparr>ref_br = map Some hs, ref_h = ph\<rparr> = (Inr True, p1, m1)"
  shows "contents m1 (ref_h p1) = bytes_of (node_h (heap t (levels t ! 0 ! 0))) \<and>
         fst (VerifyProof H t m1 p1) =
           Inr (fold_branch H es (bytes_of (node_h (heap t (levels t ! 0 ! 0)))) =
                bytes_of (node_h (heap t (levels t ! 0 ! 0))))"
proof -
  note V = VerifyProof_twice[OF assms(1,2,4,5,6)]
  note R = assms(3)
  have f: "fold_branch H es (contents m ph) = bytes_of (node_h (heap t (levels t ! 0 ! 0)))"
    using V(1) R by simp
  show ?thesis using V(2,3) f R by (simp add: eq_commute)
qed

theorem VerifyProof_replay_witness:
  "\<exists>t' p1 m1. Construct checksum [[1], [2]] NewTree = Some (Inr (Some [7]), t') \<and>
     levels t' \<noteq> [] \<and> levels t' ! 0 \<noteq> [] \<and>
     contents (tree_memory t' pair_buffers 2) (node_slice t' (levels t' ! 0 ! 0)) =
       bytes_of (node_h (heap t' (levels t' ! 0 ! 0))) \<and>
     separate (tree_memory t' pair_buffers 2) [\<lparr>s_arr = Buf 0, s_off = 0, s_len = 2, s_cap = 2\<rparr>]
       (Some \<lparr>s_arr = Buf 1, s_off = 0, s_len = 1, s_cap = 1\<rparr>) \<and>
     map (\<lambda>h. contents (tree_memory t' pair_buffers 2) (Some h))
       [\<lparr>s_arr = Buf 0, s_off = 0, s_len = 2, s_cap = 2\<rparr>] =
       map (\<lambda>e. bytes_of (encode_entry e)) [(RIGHT, [3])] \<and>
     VerifyProof checksum t' (tree_memory t' pair_buffers 2)
       \<lparr>ref_br = map Some [\<lparr>s_arr = Buf 0, s_off = 0, s_len = 2, s_cap = 2\<rparr>],
         ref_h = Some \<lparr>s_arr = Buf 1, s_off = 0, s_len = 1, s_cap = 1\<rparr>\<rparr> = (Inr True, p1, m1) \<and>
     contents m1 (ref_h p1) = [7] \<and>
     fst (VerifyProof checksum t' m1 p1) = Inr False"
proof -
  obtain t' where t': "Construct checksum [[1], [2]] NewTree = Some (Inr (Some [7]), t')"
    "levels t' \<noteq> []" "levels t' ! 0 \<noteq> []" "node_h (heap t' (levels t' ! 0 ! 0)) = Some [7]"
    using two_values_proof[of checksum "[1]" "[2]"] by (auto simp: checksum_def)
  let ?m = "tree_memory t' pair_buffers 2"
  let ?hs = "[\<lparr>s_arr = Buf 0, s_off = 0, s_len = 2, s_cap = 2\<rparr>]"
  let ?ph = "Some \<lparr>s_arr = Buf 1, s_off = 0, s_len = 1, s_cap = 1\<rparr>"
  let ?es = "[(RIGHT, [3 :: byte])]"
  have c: "contents ?m (node_slice t' (levels t' ! 0 ! 0)) =
             bytes_of (node_h (heap t' (levels t' ! 0 ! 0)))"
    by (rule tree_memory_root)
  have s: "separate ?m ?hs ?ph"
    by (simp add: separate_def wf_slice_def tree_memory_def pair_buffers_def)
  have e: "map (\<lambda>h. contents ?m (Some h)) ?hs = map (\<lambda>e. bytes_of (encode_entry e)) ?es"
    by (simp add: tree_memory_def pair_buffers_def)
  obtain res p1 m1 where v: "VerifyProof checksum t' ?m \<lparr>ref_br = map Some ?hs, ref_h = ?ph\<rparr> = (res, p1, m1)"
    by (cases "VerifyProof checksum t' ?m \<lparr>ref_br = map Some ?hs, ref_h = ?ph\<rparr>")
  have "res = Inr True"
    using VerifyProof_twice(1)[OF t'(2,3) s e v] c t'(4)
    by (simp add: fold_branch_def checksum_def tree_memory_def pair_buffers_def)
  then have v1: "VerifyProof checksum t' ?m \<lparr>ref_br = map Some ?hs, ref_h = ?ph\<rparr> = (Inr True, p1, m1)"
    using v by simp
  note R = VerifyProof_replay[OF t'(2,3) c s e v1]
  have A: "contents m1 (ref_h p1) = [7]" using conjunct1[OF R] t'(4) by simp
  have B: "fst (VerifyProof checksum t' m1 p1) = Inr False"
    using conjunct2[OF R] t'(4) by (simp add: fold_branch_def checksum_def)
  show ?thesis
    by (rule exI[of _ t'], rule exI[of _ p1], rule exI[of _ m1]) (intro conjI t'(1,2,3) c s e v1 A B)
qed

end
